theory Spec2Isabelle
  imports Main "HOL-Library.Word" "HOL-Library.Monad_Syntax"
begin

unbundle bit_operations_syntax

section \<open>Font tables as byte buffers\<close>

text \<open>
  The code under study is \<^verbatim>\<open>dlls/usp10/opentype.c\<close>. It overlays C structs on the raw
  bytes of a font table and converts every field with \<^verbatim>\<open>GET_BE_WORD\<close> or
  \<^verbatim>\<open>GET_BE_DWORD\<close>. A table is modelled as the list of its bytes; a pointer into a
  table is a byte offset from its start. The C code never compares an offset with the
  size of the table, so a read may leave the buffer. Such a read has no defined result
  in C; here it is the value \<open>None\<close>, and every function that reads bytes returns an
  option. A null pointer is \<open>NULL\<close>, a separate constructor, so that "no table" and
  "read outside the table" stay apart.
\<close>

type_synonym byte = "8 word"
type_synonym WORD = "16 word"
type_synonym DWORD = "32 word"

datatype 'a ptr = NULL | Ptr 'a

text \<open>
  The 16-bit and the 32-bit value that start at byte offset \<open>a\<close>, in big-endian
  order, whatever the byte order of the host.
\<close>

definition be_word :: "byte list \<Rightarrow> nat \<Rightarrow> WORD" where
  "be_word m a = push_bit 8 (ucast (m ! a)) OR ucast (m ! (a + 1))"

definition be_dword :: "byte list \<Rightarrow> nat \<Rightarrow> DWORD" where
  "be_dword m a =
     push_bit 24 (ucast (m ! a)) OR push_bit 16 (ucast (m ! (a + 1)))
       OR push_bit 8 (ucast (m ! (a + 2))) OR ucast (m ! (a + 3))"

text \<open>
  \<^verbatim>\<open>GET_BE_WORD(p->field)\<close> and \<^verbatim>\<open>GET_BE_DWORD(p->field)\<close> for a field at byte offset
  \<open>a\<close> of the table \<open>m\<close>: the value when the field lies in the table.
\<close>

definition GET_BE_WORD :: "byte list \<Rightarrow> nat \<Rightarrow> WORD option" where
  "GET_BE_WORD m a = (if a + 2 \<le> length m then Some (be_word m a) else None)"

definition GET_BE_DWORD :: "byte list \<Rightarrow> nat \<Rightarrow> DWORD option" where
  "GET_BE_DWORD m a = (if a + 4 \<le> length m then Some (be_dword m a) else None)"

section \<open>GDEF: the class of a glyph\<close>

text \<open>\<^verbatim>\<open>enum {BaseGlyph=1, LigatureGlyph, MarkGlyph, ComponentGlyph}\<close>; class 0 is
  a glyph without a class.\<close>

definition BaseGlyph :: WORD where "BaseGlyph = 1"
definition LigatureGlyph :: WORD where "LigatureGlyph = 2"
definition MarkGlyph :: WORD where "MarkGlyph = 3"
definition ComponentGlyph :: WORD where "ComponentGlyph = 4"

text \<open>
  The two \<^verbatim>\<open>ERR\<close> messages of the file, each with the value it prints. The
  \<^verbatim>\<open>TRACE\<close> lines of the loaders are left out.
\<close>

datatype err_msg = Unknown_Class_Format WORD | Unknown_glyph_class WORD

text \<open>
  Field offsets, from the struct declarations of the file:
  \<^verbatim>\<open>GDEF_Header\<close>: Version 0, GlyphClassDef 4.
  \<^verbatim>\<open>GDEF_ClassDefFormat1\<close>: ClassFormat 0, StartGlyph 2, GlyphCount 4,
  ClassValueArray[k] at 6 + 2k.
  \<^verbatim>\<open>GDEF_ClassDefFormat2\<close>: ClassFormat 0, ClassRangeCount 2, ClassRangeRecord[k] at
  4 + 6k with Start 0, End 2, Class 4.
\<close>

text \<open>
  The loop over the class ranges of a format 2 subtable at offset \<open>cf2\<close>, from index
  \<open>i\<close>: the class of the first range that holds the glyph, or the initial 0.
  \<^verbatim>\<open>&&\<close> reads \<^verbatim>\<open>End\<close> only when the test on \<^verbatim>\<open>Start\<close> succeeded.
\<close>

function GDEF_class_ranges :: "byte list \<Rightarrow> nat \<Rightarrow> nat \<Rightarrow> WORD \<Rightarrow> nat \<Rightarrow> WORD option" where
  "GDEF_class_ranges m cf2 topn glyph i =
     (if i < topn then do {
        rstart \<leftarrow> GET_BE_WORD m (cf2 + 4 + 6 * i);
        if rstart \<le> glyph then do {
          rend \<leftarrow> GET_BE_WORD m (cf2 + 4 + 6 * i + 2);
          if glyph \<le> rend then GET_BE_WORD m (cf2 + 4 + 6 * i + 4)
          else GDEF_class_ranges m cf2 topn glyph (i + 1) }
        else GDEF_class_ranges m cf2 topn glyph (i + 1) }
      else Some 0)"
  by pat_completeness auto
termination
  by (relation "measure (\<lambda>(m, cf2, topn, glyph, i). topn - i)") auto

declare GDEF_class_ranges.simps [simp del]

text \<open>
  \<^verbatim>\<open>GDEF_get_glyph_class\<close>. The result is the class and the messages written with
  \<^verbatim>\<open>ERR\<close>. The C code reads \<^verbatim>\<open>ClassFormat\<close> again in the second test and in the
  message; the bytes are the ones already read, so the model binds the value once.
\<close>

definition GDEF_get_glyph_class :: "byte list ptr \<Rightarrow> WORD \<Rightarrow> (WORD \<times> err_msg list) option" where
  "GDEF_get_glyph_class header glyph =
     (case header of
        NULL \<Rightarrow> Some (0, [])
      | Ptr m \<Rightarrow> do {
          offset \<leftarrow> GET_BE_WORD m 4;
          if offset = 0 then Some (0, [])
          else do {
            let cf1 = unat offset;
            fmt \<leftarrow> GET_BE_WORD m cf1;
            if fmt = 1 then do {
              start \<leftarrow> GET_BE_WORD m (cf1 + 2);
              if start \<le> glyph then do {
                let index = unat glyph - unat start;
                count \<leftarrow> GET_BE_WORD m (cf1 + 4);
                if index < unat count then do {
                  cls \<leftarrow> GET_BE_WORD m (cf1 + 6 + 2 * index);
                  Some (cls, []) }
                else Some (0, []) }
              else Some (0, []) }
            else if fmt = 2 then do {
              topn \<leftarrow> GET_BE_WORD m (cf1 + 2);
              cls \<leftarrow> GDEF_class_ranges m cf1 (unat topn) glyph 0;
              Some (cls, []) }
            else Some (0, [Unknown_Class_Format fmt]) } })"

section \<open>The font data provider and the script cache\<close>

text \<open>
  \<^verbatim>\<open>GetFontData\<close> and \<^verbatim>\<open>GetGlyphIndicesW\<close> belong to gdi32 and \<^verbatim>\<open>HeapAlloc\<close> to the
  kernel; the code only calls them. They are parameters of the model, collected in
  \<open>env\<close>, which stands for the device context \<^verbatim>\<open>hdc\<close> and the process heap:
  \<^item> \<open>fd_size k t\<close>: the answer of \<^verbatim>\<open>GetFontData(hdc, t, 0, NULL, 0)\<close> when \<open>k\<close>
    calls of \<^verbatim>\<open>GetFontData\<close> came before it, the size of the table or \<open>None\<close> for
    \<^verbatim>\<open>GDI_ERROR\<close>. The answer may change from call to call. The code keeps the
    size in an \<^verbatim>\<open>int\<close>; the model takes it as a number.
  \<^item> \<open>fd_data k t n\<close>: the bytes that \<^verbatim>\<open>GetFontData(hdc, t, 0, buf, n)\<close> copies into
    the buffer, or \<open>None\<close> when the call fails and copies nothing.
  \<^item> \<open>heap_byte\<close>: what a block fresh from \<^verbatim>\<open>HeapAlloc\<close> holds (flags 0: the block
    is not cleared).
  \<^item> \<open>glyph_indices ch pgi flags\<close>: \<^verbatim>\<open>GetGlyphIndicesW(hdc, &ch, 1, pgi, flags)\<close>, its
    return value and the glyph index it leaves in \<^verbatim>\<open>*pgi\<close>.
  \<^verbatim>\<open>HeapAlloc\<close> is taken to succeed.
\<close>

datatype tag = CMAP_TAG | GDEF_TAG

datatype fd_call = Size_query tag | Fill tag nat

record env =
  fd_size :: "nat \<Rightarrow> tag \<Rightarrow> nat option"
  fd_data :: "nat \<Rightarrow> tag \<Rightarrow> nat \<Rightarrow> byte list option"
  heap_byte :: "nat \<Rightarrow> byte"
  glyph_indices :: "WORD \<Rightarrow> WORD \<Rightarrow> DWORD \<Rightarrow> DWORD \<times> WORD"

text \<open>
  The fields of \<^verbatim>\<open>ScriptCache\<close> that the file uses. \<^verbatim>\<open>CMAP_format12_Table\<close> points
  into the block of \<^verbatim>\<open>CMAP_Table\<close>: it is a byte offset from the start of that block.
\<close>

record ScriptCache =
  CMAP_Table :: "byte list ptr"
  CMAP_format12_Table :: "nat ptr"
  GDEF_Table :: "byte list ptr"

text \<open>
  What the functions change: the script cache \<^verbatim>\<open>*psc\<close>, the calls of
  \<^verbatim>\<open>GetFontData\<close> made so far (oldest first) and the messages written with
  \<^verbatim>\<open>ERR\<close>.
\<close>

record world =
  psc :: ScriptCache
  fd_calls :: "fd_call list"
  err_log :: "err_msg list"

definition HeapAlloc :: "env \<Rightarrow> nat \<Rightarrow> byte list" where
  "HeapAlloc e n = map (heap_byte e) [0..<n]"

text \<open>\<^verbatim>\<open>GetFontData(hdc, t, 0, NULL, 0)\<close>: the size of the table.\<close>

definition GetFontData_size :: "env \<Rightarrow> tag \<Rightarrow> world \<Rightarrow> nat option \<times> world" where
  "GetFontData_size e t w =
     (fd_size e (length (fd_calls w)) t, w\<lparr>fd_calls := fd_calls w @ [Size_query t]\<rparr>)"

text \<open>
  \<^verbatim>\<open>GetFontData(hdc, t, 0, buf, length)\<close>: the block after the call. The bytes copied
  overwrite the start of the block, what is not overwritten stays. Both callers drop
  the return value, so the model does not return it.
\<close>

definition GetFontData_fill :: "env \<Rightarrow> tag \<Rightarrow> byte list \<Rightarrow> world \<Rightarrow> byte list \<times> world" where
  "GetFontData_fill e t buf w =
     (case fd_data e (length (fd_calls w)) t (length buf) of
        None \<Rightarrow> buf
      | Some d \<Rightarrow> take (length buf) (d @ drop (length d) buf),
      w\<lparr>fd_calls := fd_calls w @ [Fill t (length buf)]\<rparr>)"

section \<open>cmap: the format 12 subtable\<close>

text \<open>
  Field offsets: \<^verbatim>\<open>CMAP_Header\<close>: version 0, numTables 2, tables[k] at 4 + 8k with
  platformID 0, encodingID 2, offset 4. \<^verbatim>\<open>CMAP_SegmentedCoverage\<close>: format 0,
  reserved 2, length 4, language 8, nGroups 12, groups[k] at 16 + 12k with
  startCharCode 0, endCharCode 4, startGlyphID 8.
\<close>

text \<open>
  The loop of \<^verbatim>\<open>load_CMAP_format12_table\<close> over the encoding records, from index
  \<open>i\<close>. The loop test reads \<^verbatim>\<open>numTables\<close> each time round; \<^verbatim>\<open>&&\<close> reads
  \<^verbatim>\<open>encodingID\<close> only for platform 3.
\<close>

function CMAP_encoding_records :: "byte list \<Rightarrow> nat \<Rightarrow> nat ptr option" where
  "CMAP_encoding_records m i = do {
     numTables \<leftarrow> GET_BE_WORD m 2;
     if i < unat numTables then do {
       platformID \<leftarrow> GET_BE_WORD m (4 + 8 * i);
       if platformID = 3 then do {
         encodingID \<leftarrow> GET_BE_WORD m (4 + 8 * i + 2);
         if encodingID = 10 then do {
           offset \<leftarrow> GET_BE_DWORD m (4 + 8 * i + 4);
           fmt \<leftarrow> GET_BE_WORD m (unat offset);
           if fmt = 12 then Some (Ptr (unat offset))
           else CMAP_encoding_records m (i + 1) }
         else CMAP_encoding_records m (i + 1) }
       else CMAP_encoding_records m (i + 1) }
     else Some NULL }"
  by pat_completeness auto
termination
  by (relation "measure (\<lambda>(m, i). case GET_BE_WORD m 2 of None \<Rightarrow> 0 | Some n \<Rightarrow> unat n - i)")
    auto

declare CMAP_encoding_records.simps [simp del]

text \<open>
  \<^verbatim>\<open>load_CMAP_format12_table\<close>: fetch the cmap table unless the cache has it, then
  look for the subtable.
\<close>

definition load_CMAP_format12_table :: "env \<Rightarrow> world \<Rightarrow> (nat ptr \<times> world) option" where
  "load_CMAP_format12_table e w =
     (case CMAP_Table (psc w) of
        Ptr m \<Rightarrow> do { r \<leftarrow> CMAP_encoding_records m 0; Some (r, w) }
      | NULL \<Rightarrow>
          (case GetFontData_size e CMAP_TAG w of
             (None, w1) \<Rightarrow> Some (NULL, w1)
           | (Some n, w1) \<Rightarrow>
               (case GetFontData_fill e CMAP_TAG (HeapAlloc e n) w1 of
                  (buf, w2) \<Rightarrow> do {
                    r \<leftarrow> CMAP_encoding_records buf 0;
                    Some (r, w2\<lparr>psc := (psc w2)\<lparr>CMAP_Table := Ptr buf\<rparr>\<rparr>) })))"

text \<open>\<^verbatim>\<open>compare_group\<close>, with the group given by its byte offset.\<close>

definition compare_group :: "byte list \<Rightarrow> DWORD \<Rightarrow> nat \<Rightarrow> int option" where
  "compare_group m chr grp = do {
     startCharCode \<leftarrow> GET_BE_DWORD m grp;
     if chr < startCharCode then Some (- 1)
     else do {
       endCharCode \<leftarrow> GET_BE_DWORD m (grp + 4);
       if chr > endCharCode then Some 1 else Some 0 } }"

text \<open>
  Modelled from the spec: \<^verbatim>\<open>bsearch\<close> is the C library's, not code of this
  repository; the spec says "binary-search the view's segment-group sequence". The
  model is the halving loop over the index interval from \<open>l\<close> up to, not including,
  \<open>u\<close>; it returns the offset of an element that compares equal, or \<open>NULL\<close>.
\<close>

function bsearch_loop ::
  "('k \<Rightarrow> nat \<Rightarrow> int option) \<Rightarrow> 'k \<Rightarrow> nat \<Rightarrow> nat \<Rightarrow> nat \<Rightarrow> nat \<Rightarrow> nat ptr option" where
  "bsearch_loop compar key base sz l u =
     (if l < u then do {
        let idx = (l + u) div 2;
        let p = base + idx * sz;
        c \<leftarrow> compar key p;
        if c < 0 then bsearch_loop compar key base sz l idx
        else if c > 0 then bsearch_loop compar key base sz (idx + 1) u
        else Some (Ptr p) }
      else Some NULL)"
  by pat_completeness auto
termination
  by (relation "measure (\<lambda>(compar, key, base, sz, l, u). u - l)") auto

declare bsearch_loop.simps [simp del]

definition bsearch ::
  "'k \<Rightarrow> nat \<Rightarrow> nat \<Rightarrow> nat \<Rightarrow> ('k \<Rightarrow> nat \<Rightarrow> int option) \<Rightarrow> nat ptr option" where
  "bsearch key base nmemb sz compar = bsearch_loop compar key base sz 0 nmemb"

text \<open>
  Modelled from the spec: the flag bit \<^verbatim>\<open>GGI_MARK_NONEXISTING_GLYPHS\<close> is declared in
  wingdi.h, which is not among the sources; the spec calls it \<open>mark_nonexistent\<close>.
\<close>

definition GGI_MARK_NONEXISTING_GLYPHS :: DWORD where
  "GGI_MARK_NONEXISTING_GLYPHS = 1"

text \<open>
  \<^verbatim>\<open>OpenType_CMAP_GetGlyphIndex\<close>. The argument \<open>pgi\<close> is what \<^verbatim>\<open>*pgi\<close> holds at the
  call; the result is the return value, \<^verbatim>\<open>*pgi\<close> at the return and the new world.
  \<^verbatim>\<open>*pgi\<close> is a \<^verbatim>\<open>WORD\<close>: the assignment of the 32-bit sum keeps its low 16 bits.
  A subtable pointer without the table it points into has nothing to read.
\<close>

definition OpenType_CMAP_GetGlyphIndex ::
  "env \<Rightarrow> DWORD \<Rightarrow> WORD \<Rightarrow> DWORD \<Rightarrow> world \<Rightarrow> ((DWORD \<times> WORD) \<times> world) option" where
  "OpenType_CMAP_GetGlyphIndex e utf32c pgi flags w =
     (if utf32c < 0x10000 then Some (glyph_indices e (ucast utf32c) pgi flags, w)
      else do {
        w1 \<leftarrow> (case CMAP_format12_Table (psc w) of
                 NULL \<Rightarrow> do {
                   (t, w') \<leftarrow> load_CMAP_format12_table e w;
                   Some (w'\<lparr>psc := (psc w')\<lparr>CMAP_format12_Table := t\<rparr>\<rparr>) }
               | Ptr f \<Rightarrow> Some w);
        let pgi1 = (if flags AND GGI_MARK_NONEXISTING_GLYPHS \<noteq> 0 then 0xffff else 0);
        case CMAP_format12_Table (psc w1) of
          NULL \<Rightarrow> Some ((0, pgi1), w1)
        | Ptr format \<Rightarrow>
            (case CMAP_Table (psc w1) of
               NULL \<Rightarrow> None
             | Ptr m \<Rightarrow> do {
                 nGroups \<leftarrow> GET_BE_DWORD m (format + 12);
                 grp \<leftarrow> bsearch utf32c (format + 16) (unat nGroups) 12 (compare_group m);
                 case grp of
                   NULL \<Rightarrow> Some ((0, pgi1), w1)
                 | Ptr g \<Rightarrow> do {
                     startCharCode \<leftarrow> GET_BE_DWORD m g;
                     let offset = utf32c - startCharCode;
                     startGlyphID \<leftarrow> GET_BE_DWORD m (g + 8);
                     Some ((0, ucast (startGlyphID + offset)), w1) } }) })"

section \<open>GDEF: the properties of the glyphs of a run\<close>

text \<open>\<^verbatim>\<open>load_gdef_table\<close>: fetch the GDEF table; \<open>NULL\<close> when the size query fails.\<close>

definition load_gdef_table :: "env \<Rightarrow> world \<Rightarrow> byte list ptr \<times> world" where
  "load_gdef_table e w =
     (case GetFontData_size e GDEF_TAG w of
        (None, w1) \<Rightarrow> (NULL, w1)
      | (Some n, w1) \<Rightarrow>
          (case GetFontData_fill e GDEF_TAG (HeapAlloc e n) w1 of
             (buf, w2) \<Rightarrow> (Ptr buf, w2)))"

text \<open>
  Modelled from the spec: \<^verbatim>\<open>SCRIPT_GLYPHPROP\<close> and \<^verbatim>\<open>SCRIPT_VISATTR\<close> are declared in
  usp10.h, which is not among the sources. The records hold the three flags that the
  spec lists for a glyph property and that the code assigns.
\<close>

record SCRIPT_VISATTR =
  fClusterStart :: bool
  fDiacritic :: bool
  fZeroWidth :: bool

record SCRIPT_GLYPHPROP =
  sva :: SCRIPT_VISATTR

text \<open>An element of a caller's array: outside the array there is nothing to read.\<close>

definition elem :: "'a list \<Rightarrow> nat \<Rightarrow> 'a option" where
  "elem xs i = (if i < length xs then Some (xs ! i) else None)"

text \<open>
  The inner loop: the number of characters \<open>k\<close>, from \<open>k\<close> up to \<open>cChars\<close>, with
  \<^verbatim>\<open>pwLogClust[k] == i\<close>.
\<close>

function count_chars :: "WORD list \<Rightarrow> nat \<Rightarrow> nat \<Rightarrow> nat \<Rightarrow> nat \<Rightarrow> nat option" where
  "count_chars pwLogClust cChars i k char_count =
     (if k < cChars then do {
        c \<leftarrow> elem pwLogClust k;
        count_chars pwLogClust cChars i (k + 1)
          (if unat c = i then char_count + 1 else char_count) }
      else Some char_count)"
  by pat_completeness auto
termination
  by (relation "measure (\<lambda>(pwLogClust, cChars, i, k, char_count). cChars - k)") auto

declare count_chars.simps [simp del]

text \<open>The \<^verbatim>\<open>switch\<close> on the class: the three flags, and the message of the default case.\<close>

definition class_flags :: "WORD \<Rightarrow> SCRIPT_VISATTR \<Rightarrow> SCRIPT_VISATTR \<times> err_msg list" where
  "class_flags cls v =
     (if cls = 0 \<or> cls = BaseGlyph then
        (v\<lparr>fClusterStart := True, fDiacritic := False, fZeroWidth := False\<rparr>, [])
      else if cls = LigatureGlyph then
        (v\<lparr>fClusterStart := True, fDiacritic := False, fZeroWidth := False\<rparr>, [])
      else if cls = MarkGlyph then
        (v\<lparr>fClusterStart := False, fDiacritic := True, fZeroWidth := True\<rparr>, [])
      else if cls = ComponentGlyph then
        (v\<lparr>fClusterStart := False, fDiacritic := False, fZeroWidth := False\<rparr>, [])
      else
        (v\<lparr>fClusterStart := True, fDiacritic := False, fZeroWidth := False\<rparr>,
         [Unknown_glyph_class cls]))"

text \<open>
  The loop over the glyphs, from index \<open>i\<close>, with the property array and the messages
  so far.
\<close>

function glyph_props_loop ::
  "byte list ptr \<Rightarrow> WORD list \<Rightarrow> nat \<Rightarrow> WORD list \<Rightarrow> nat \<Rightarrow> nat \<Rightarrow>
   SCRIPT_GLYPHPROP list \<Rightarrow> err_msg list \<Rightarrow> (SCRIPT_GLYPHPROP list \<times> err_msg list) option" where
  "glyph_props_loop gdef pwGlyphs cGlyphs pwLogClust cChars i pGlyphProp msgs =
     (if i < cGlyphs then do {
        char_count \<leftarrow> count_chars pwLogClust cChars i 0 0;
        glyph \<leftarrow> elem pwGlyphs i;
        (cls, msgs1) \<leftarrow> GDEF_get_glyph_class gdef glyph;
        prop \<leftarrow> elem pGlyphProp i;
        let (v, msgs2) = class_flags cls (sva prop);
        let v' = (if char_count = 0 then v\<lparr>fClusterStart := False\<rparr> else v);
        glyph_props_loop gdef pwGlyphs cGlyphs pwLogClust cChars (i + 1)
          (pGlyphProp[i := prop\<lparr>sva := v'\<rparr>]) (msgs @ msgs1 @ msgs2) }
      else Some (pGlyphProp, msgs))"
  by pat_completeness auto
termination
  by (relation "measure (\<lambda>(gdef, pwGlyphs, cGlyphs, pwLogClust, cChars, i, pGlyphProp, msgs).
        cGlyphs - i)") auto

declare glyph_props_loop.simps [simp del]

text \<open>
  \<^verbatim>\<open>OpenType_GDEF_UpdateGlyphProps\<close>: the property array after the call and the new
  world. \<^verbatim>\<open>cGlyphs\<close> and \<^verbatim>\<open>cChars\<close> are \<^verbatim>\<open>WORD\<close>s, the arrays are lists of any length.
\<close>

definition OpenType_GDEF_UpdateGlyphProps ::
  "env \<Rightarrow> WORD list \<Rightarrow> WORD \<Rightarrow> WORD list \<Rightarrow> WORD \<Rightarrow> SCRIPT_GLYPHPROP list \<Rightarrow> world \<Rightarrow>
   (SCRIPT_GLYPHPROP list \<times> world) option" where
  "OpenType_GDEF_UpdateGlyphProps e pwGlyphs cGlyphs pwLogClust cChars pGlyphProp w =
     (let w1 = (case GDEF_Table (psc w) of
                  NULL \<Rightarrow> (case load_gdef_table e w of
                             (t, w') \<Rightarrow> w'\<lparr>psc := (psc w')\<lparr>GDEF_Table := t\<rparr>\<rparr>)
                | Ptr t \<Rightarrow> w)
      in do {
        (props, msgs) \<leftarrow> glyph_props_loop (GDEF_Table (psc w1)) pwGlyphs (unat cGlyphs)
                           pwLogClust (unat cChars) 0 pGlyphProp [];
        Some (props, w1\<lparr>err_log := err_log w1 @ msgs\<rparr>) })"

section \<open>The tables as the spec sees them\<close>

text \<open>
  The spec speaks of views: a class array, a list of class ranges, a list of segment
  groups. The definitions below decode these views from the bytes and restate the
  spec's rules over them, to be compared with the functions above. They decode with
  \<open>be_word\<close> and \<open>be_dword\<close> and are meant for tables that hold all of their entries.
\<close>

text \<open>The class array of the format 1 subtable at offset \<open>cf1\<close>: \<open>GlyphCount\<close> entries.\<close>

definition GDEF_ClassValueArray :: "byte list \<Rightarrow> nat \<Rightarrow> WORD list" where
  "GDEF_ClassValueArray m cf1 =
     map (\<lambda>k. be_word m (cf1 + 6 + 2 * k)) [0..<unat (be_word m (cf1 + 4))]"

text \<open>
  Spec, format 1: if \<open>glyph >= start_glyph\<close> and \<open>glyph - start_glyph < glyph_count\<close>,
  return \<open>class_array[glyph - start_glyph]\<close>; else Unclassified.
\<close>

definition classify_format1 :: "WORD \<Rightarrow> WORD list \<Rightarrow> WORD \<Rightarrow> WORD" where
  "classify_format1 start_glyph class_array glyph =
     (if start_glyph \<le> glyph \<and> unat glyph - unat start_glyph < length class_array
      then class_array ! (unat glyph - unat start_glyph) else 0)"

text \<open>The class ranges of the format 2 subtable at offset \<open>cf2\<close>, as (start, end, class).\<close>

definition GDEF_ClassRangeRecords :: "byte list \<Rightarrow> nat \<Rightarrow> (WORD \<times> WORD \<times> WORD) list" where
  "GDEF_ClassRangeRecords m cf2 =
     map (\<lambda>k. (be_word m (cf2 + 4 + 6 * k), be_word m (cf2 + 4 + 6 * k + 2),
                be_word m (cf2 + 4 + 6 * k + 4)))
       [0..<unat (be_word m (cf2 + 2))]"

text \<open>
  Spec, format 2: the class of the first range, in stored order, with
  \<open>start <= glyph <= end\<close>; Unclassified if none matches.
\<close>

definition classify_format2 :: "(WORD \<times> WORD \<times> WORD) list \<Rightarrow> WORD \<Rightarrow> WORD" where
  "classify_format2 ranges glyph =
     (case find (\<lambda>(rstart, rend, cls). rstart \<le> glyph \<and> glyph \<le> rend) ranges of
        None \<Rightarrow> 0
      | Some (rstart, rend, cls) \<Rightarrow> cls)"

text \<open>
  A GDEF table that holds what the classifier reads: the header, and behind a
  non-zero offset the format field and, for format 1 or 2, all the entries counted.
\<close>

definition GDEF_in_bounds :: "byte list \<Rightarrow> bool" where
  "GDEF_in_bounds m =
     (6 \<le> length m \<and>
      (be_word m 4 \<noteq> 0 \<longrightarrow>
         unat (be_word m 4) + 2 \<le> length m \<and>
         (be_word m (unat (be_word m 4)) = 1 \<longrightarrow>
            unat (be_word m 4) + 6 + 2 * unat (be_word m (unat (be_word m 4) + 4)) \<le> length m) \<and>
         (be_word m (unat (be_word m 4)) = 2 \<longrightarrow>
            unat (be_word m 4) + 4 + 6 * unat (be_word m (unat (be_word m 4) + 2)) \<le> length m)))"

text \<open>The segment groups of the subtable at offset \<open>format\<close>, as
  (start_char, end_char, start_glyph).\<close>

definition CMAP_groups :: "byte list \<Rightarrow> nat \<Rightarrow> (DWORD \<times> DWORD \<times> DWORD) list" where
  "CMAP_groups m format =
     map (\<lambda>k. (be_dword m (format + 16 + 12 * k), be_dword m (format + 16 + 12 * k + 4),
                be_dword m (format + 16 + 12 * k + 8)))
       [0..<unat (be_dword m (format + 12))]"

text \<open>
  The invariant the spec takes from the format: every group is a range, and the groups
  ascend without overlap.
\<close>

definition groups_ascending :: "(DWORD \<times> DWORD \<times> DWORD) list \<Rightarrow> bool" where
  "groups_ascending gs =
     (list_all (\<lambda>(start_char, end_char, start_glyph). start_char \<le> end_char) gs \<and>
      sorted_wrt (\<lambda>(start_char, end_char, start_glyph) (start_char', end_char', start_glyph').
                    end_char < start_char') gs)"

text \<open>The not-found sentinel: \<open>0xFFFF\<close> if \<open>mark_nonexistent\<close>, else 0.\<close>

definition not_found_glyph :: "DWORD \<Rightarrow> WORD" where
  "not_found_glyph flags = (if flags AND GGI_MARK_NONEXISTING_GLYPHS \<noteq> 0 then 0xffff else 0)"

text \<open>
  The lookup over the groups with the result as the code stores it: the glyph of the
  group that holds \<open>c\<close>, cut to the 16 bits of a glyph index, or the sentinel \<open>nf\<close>.
\<close>

definition resolve_format12 :: "(DWORD \<times> DWORD \<times> DWORD) list \<Rightarrow> DWORD \<Rightarrow> WORD \<Rightarrow> WORD" where
  "resolve_format12 gs c nf =
     (case find (\<lambda>(start_char, end_char, start_glyph). start_char \<le> c \<and> c \<le> end_char) gs of
        None \<Rightarrow> nf
      | Some (start_char, end_char, start_glyph) \<Rightarrow> ucast (start_glyph + (c - start_char)))"

text \<open>
  Spec, in its own words and over numbers: on match, result glyph =
  \<open>g.start_glyph + (c - g.start_char)\<close>; on no match the sentinel.
\<close>

definition spec_resolve_glyph :: "(nat \<times> nat \<times> nat) list \<Rightarrow> nat \<Rightarrow> nat \<Rightarrow> nat" where
  "spec_resolve_glyph gs c nf =
     (case find (\<lambda>(start_char, end_char, start_glyph). start_char \<le> c \<and> c \<le> end_char) gs of
        None \<Rightarrow> nf
      | Some (start_char, end_char, start_glyph) \<Rightarrow> start_glyph + (c - start_char))"

text \<open>A group read as three numbers.\<close>

definition group_numbers :: "DWORD \<times> DWORD \<times> DWORD \<Rightarrow> nat \<times> nat \<times> nat" where
  "group_numbers g = (case g of (start_char, end_char, start_glyph) \<Rightarrow>
     (unat start_char, unat end_char, unat start_glyph))"

text \<open>A format 12 subtable at offset \<open>format\<close> that holds its header and all its groups.\<close>

definition format12_in_bounds :: "byte list \<Rightarrow> nat \<Rightarrow> bool" where
  "format12_in_bounds m format = (format + 16 + 12 * unat (be_dword m (format + 12)) \<le> length m)"

text \<open>
  A cmap table that holds what the code reads: all the encoding records counted, and
  for each record of platform 3 and encoding 10 the format field of its subtable, and
  the whole subtable if its format is 12.
\<close>

definition CMAP_in_bounds :: "byte list \<Rightarrow> bool" where
  "CMAP_in_bounds m =
     (4 + 8 * unat (be_word m 2) \<le> length m \<and>
      list_all (\<lambda>i. be_word m (4 + 8 * i) = 3 \<and> be_word m (4 + 8 * i + 2) = 10 \<longrightarrow>
                  unat (be_dword m (4 + 8 * i + 4)) + 2 \<le> length m \<and>
                  (be_word m (unat (be_dword m (4 + 8 * i + 4))) = 12 \<longrightarrow>
                   format12_in_bounds m (unat (be_dword m (4 + 8 * i + 4)))))
        [0..<unat (be_word m 2)])"

text \<open>The block that a fetch of \<open>n\<close> bytes for tag \<open>t\<close> leaves in the cache.\<close>

definition fetched :: "env \<Rightarrow> tag \<Rightarrow> world \<Rightarrow> nat \<Rightarrow> byte list" where
  "fetched e t w n = fst (GetFontData_fill e t (HeapAlloc e n) (snd (GetFontData_size e t w)))"

text \<open>
  The cmap data that a lookup from world \<open>w\<close> will read lies inside its table: the
  cached subtable, else the cached table, else the table that the fetch will store.
\<close>

definition cmap_ready :: "env \<Rightarrow> world \<Rightarrow> bool" where
  "cmap_ready e w =
     (case CMAP_format12_Table (psc w) of
        Ptr f \<Rightarrow> (case CMAP_Table (psc w) of NULL \<Rightarrow> False | Ptr m \<Rightarrow> format12_in_bounds m f)
      | NULL \<Rightarrow>
          (case CMAP_Table (psc w) of
             Ptr m \<Rightarrow> CMAP_in_bounds m
           | NULL \<Rightarrow>
               (case fd_size e (length (fd_calls w)) CMAP_TAG of
                  None \<Rightarrow> True
                | Some n \<Rightarrow> CMAP_in_bounds (fetched e CMAP_TAG w n))))"

text \<open>
  The GDEF table that a call from world \<open>w\<close> will use: the cached one, else the one
  that the fetch will store, if any.
\<close>

definition gdef_table_used :: "env \<Rightarrow> world \<Rightarrow> byte list ptr" where
  "gdef_table_used e w =
     (case GDEF_Table (psc w) of
        Ptr m \<Rightarrow> Ptr m
      | NULL \<Rightarrow>
          (case fd_size e (length (fd_calls w)) GDEF_TAG of
             None \<Rightarrow> NULL
           | Some n \<Rightarrow> Ptr (fetched e GDEF_TAG w n)))"

text \<open>That table holds what the classifier reads.\<close>

definition gdef_ready :: "env \<Rightarrow> world \<Rightarrow> bool" where
  "gdef_ready e w = (case gdef_table_used e w of NULL \<Rightarrow> True | Ptr m \<Rightarrow> GDEF_in_bounds m)"

text \<open>
  Spec, annotator: \<open>char_count\<close> is the number of logical character slots whose
  cluster map entry equals \<open>i\<close>.
\<close>

definition char_count_of :: "WORD list \<Rightarrow> nat \<Rightarrow> nat \<Rightarrow> nat" where
  "char_count_of cluster_map cChars i =
     length (filter (\<lambda>c. unat c = i) (take cChars cluster_map))"

text \<open>
  Spec, annotator: the row of the class table (cluster_start, diacritic, zero_width),
  then the override for a glyph that maps from no character.
\<close>

definition class_row :: "WORD \<Rightarrow> bool \<times> bool \<times> bool" where
  "class_row cls =
     (if cls = 0 then (True, False, False)
      else if cls = BaseGlyph then (True, False, False)
      else if cls = LigatureGlyph then (True, False, False)
      else if cls = ComponentGlyph then (False, False, False)
      else if cls = MarkGlyph then (False, True, True)
      else (True, False, False))"

definition annotate_glyph :: "WORD \<Rightarrow> nat \<Rightarrow> SCRIPT_VISATTR" where
  "annotate_glyph cls char_count =
     (case class_row cls of
        (cluster_start, diacritic, zero_width) \<Rightarrow>
          \<lparr>fClusterStart = (if char_count = 0 then False else cluster_start),
           fDiacritic = diacritic, fZeroWidth = zero_width\<rparr>)"

text \<open>Two notions for the proofs about the search: group \<open>k\<close> of the array at
  \<open>base\<close> holds \<open>c\<close>; the first \<open>n\<close> groups of the array ascend without overlap.\<close>

definition group_holds :: "byte list \<Rightarrow> nat \<Rightarrow> DWORD \<Rightarrow> nat \<Rightarrow> bool" where
  "group_holds m base c k =
     (be_dword m (base + 12 * k) \<le> c \<and> c \<le> be_dword m (base + 12 * k + 4))"

definition ascending_at :: "byte list \<Rightarrow> nat \<Rightarrow> nat \<Rightarrow> bool" where
  "ascending_at m base n =
     ((\<forall>k<n. be_dword m (base + 12 * k) \<le> be_dword m (base + 12 * k + 4)) \<and>
      (\<forall>j k. j < k \<and> k < n \<longrightarrow> be_dword m (base + 12 * j + 4) < be_dword m (base + 12 * k)))"

section \<open>Example tables\<close>

text \<open>
  A GDEF table with a format 1 class definition at offset 12: StartGlyph 10,
  GlyphCount 2, classes Base and Mark.
\<close>

definition gdef_format1_example :: "byte list" where
  "gdef_format1_example =
     [0, 1, 0, 0,  0, 12,  0, 0,  0, 0,  0, 0,
      0, 1,  0, 10,  0, 2,  0, 1,  0, 3]"

text \<open>A GDEF table with a format 2 class definition: ranges (1, 5, Base) and (3, 3, Mark).\<close>

definition gdef_format2_example :: "byte list" where
  "gdef_format2_example =
     [0, 1, 0, 0,  0, 12,  0, 0,  0, 0,  0, 0,
      0, 2,  0, 2,  0, 1, 0, 5, 0, 1,  0, 3, 0, 3, 0, 3]"

text \<open>A GDEF header without a class definition, and one whose class definition has
  format 3.\<close>

definition gdef_no_classdef_example :: "byte list" where
  "gdef_no_classdef_example = [0, 1, 0, 0,  0, 0,  0, 0,  0, 0,  0, 0]"

definition gdef_format3_example :: "byte list" where
  "gdef_format3_example = [0, 1, 0, 0,  0, 12,  0, 0,  0, 0,  0, 0,  0, 3]"

text \<open>
  The format 1 table cut after GlyphCount: it announces two classes and holds none.
\<close>

definition gdef_truncated_example :: "byte list" where
  "gdef_truncated_example =
     [0, 1, 0, 0,  0, 12,  0, 0,  0, 0,  0, 0,
      0, 1,  0, 10,  0, 2]"

text \<open>
  A cmap table with one encoding record (platform 3, encoding 10) and its format 12
  subtable at offset 12, with the one group (0x10000, 0x10002, 5).
\<close>

definition cmap_example :: "byte list" where
  "cmap_example =
     [0, 0,  0, 1,
      0, 3,  0, 10,  0, 0, 0, 12,
      0, 12,  0, 0,  0, 0, 0, 28,  0, 0, 0, 0,  0, 0, 0, 1,
      0, 1, 0, 0,  0, 1, 0, 2,  0, 0, 0, 5]"

text \<open>The same table with start glyph 0xFFFF in its group.\<close>

definition cmap_wide_example :: "byte list" where
  "cmap_wide_example =
     [0, 0,  0, 1,
      0, 3,  0, 10,  0, 0, 0, 12,
      0, 12,  0, 0,  0, 0, 0, 28,  0, 0, 0, 0,  0, 0, 0, 1,
      0, 1, 0, 0,  0, 1, 0, 2,  0, 0, 255, 255]"

text \<open>A font that has both example tables; its BMP lookup is some fixed function.\<close>

definition example_env :: env where
  "example_env =
     \<lparr>fd_size = (\<lambda>k t. case t of CMAP_TAG \<Rightarrow> Some 40 | GDEF_TAG \<Rightarrow> Some 22),
      fd_data = (\<lambda>k t n. case t of CMAP_TAG \<Rightarrow> Some cmap_example
                                  | GDEF_TAG \<Rightarrow> Some gdef_format1_example),
      heap_byte = (\<lambda>a. 0),
      glyph_indices = (\<lambda>ch pgi flags. (1, ch + 3))\<rparr>"

text \<open>A font without tables.\<close>

definition absent_env :: env where
  "absent_env =
     \<lparr>fd_size = (\<lambda>k t. None), fd_data = (\<lambda>k t n. None), heap_byte = (\<lambda>a. 0),
      glyph_indices = (\<lambda>ch pgi flags. (1, ch + 3))\<rparr>"

text \<open>A font whose tables have 4 bytes, and every read of them fails.\<close>

definition short_read_env :: env where
  "short_read_env =
     \<lparr>fd_size = (\<lambda>k t. Some 4), fd_data = (\<lambda>k t n. None), heap_byte = (\<lambda>a. 0),
      glyph_indices = (\<lambda>ch pgi flags. (1, ch + 3))\<rparr>"

text \<open>A fresh script cache, and the cache after the cmap example was loaded.\<close>

definition empty_world :: world where
  "empty_world =
     \<lparr>psc = \<lparr>CMAP_Table = NULL, CMAP_format12_Table = NULL, GDEF_Table = NULL\<rparr>,
      fd_calls = [], err_log = []\<rparr>"

definition cmap_loaded_world :: world where
  "cmap_loaded_world =
     \<lparr>psc = \<lparr>CMAP_Table = Ptr cmap_example, CMAP_format12_Table = Ptr 12, GDEF_Table = NULL\<rparr>,
      fd_calls = [Size_query CMAP_TAG, Fill CMAP_TAG 40], err_log = []\<rparr>"

text \<open>The cache after the fetch of the cmap example, before the subtable is cached.\<close>

definition cmap_fetched_world :: world where
  "cmap_fetched_world =
     \<lparr>psc = \<lparr>CMAP_Table = Ptr cmap_example, CMAP_format12_Table = NULL, GDEF_Table = NULL\<rparr>,
      fd_calls = [Size_query CMAP_TAG, Fill CMAP_TAG 40], err_log = []\<rparr>"

definition cmap_wide_world :: world where
  "cmap_wide_world =
     \<lparr>psc = \<lparr>CMAP_Table = Ptr cmap_wide_example, CMAP_format12_Table = Ptr 12,
             GDEF_Table = NULL\<rparr>,
      fd_calls = [Size_query CMAP_TAG, Fill CMAP_TAG 40], err_log = []\<rparr>"

definition gdef_loaded_world :: world where
  "gdef_loaded_world =
     \<lparr>psc = \<lparr>CMAP_Table = NULL, CMAP_format12_Table = NULL,
             GDEF_Table = Ptr gdef_format1_example\<rparr>,
      fd_calls = [Size_query GDEF_TAG, Fill GDEF_TAG 22], err_log = []\<rparr>"

text \<open>The cache after a fetch of the cmap table from \<open>short_read_env\<close>.\<close>

definition short_read_world :: world where
  "short_read_world =
     \<lparr>psc = \<lparr>CMAP_Table = Ptr [0, 0, 0, 0], CMAP_format12_Table = NULL, GDEF_Table = NULL\<rparr>,
      fd_calls = [Size_query CMAP_TAG, Fill CMAP_TAG 4], err_log = []\<rparr>"

text \<open>A property record with all flags clear.\<close>

definition clear_prop :: SCRIPT_GLYPHPROP where
  "clear_prop = \<lparr>sva = \<lparr>fClusterStart = False, fDiacritic = False, fZeroWidth = False\<rparr>\<rparr>"

section \<open>Reads inside a table\<close>

lemma GET_BE_WORD_Some: "a + 2 \<le> length m \<Longrightarrow> GET_BE_WORD m a = Some (be_word m a)"
  by (simp add: GET_BE_WORD_def)

lemma GET_BE_DWORD_Some: "a + 4 \<le> length m \<Longrightarrow> GET_BE_DWORD m a = Some (be_dword m a)"
  by (simp add: GET_BE_DWORD_def)

section \<open>The class of a glyph: lemmas\<close>

lemma GDEF_class_ranges_find:
  "cf2 + 4 + 6 * topn \<le> length m \<Longrightarrow>
   GDEF_class_ranges m cf2 topn glyph i =
     Some (classify_format2
       (map (\<lambda>k. (be_word m (cf2 + 4 + 6 * k), be_word m (cf2 + 4 + 6 * k + 2),
                   be_word m (cf2 + 4 + 6 * k + 4))) [i..<topn]) glyph)"
proof (induction m cf2 topn glyph i rule: GDEF_class_ranges.induct)
  case (1 m cf2 topn glyph i)
  show ?case
  proof (cases "i < topn")
    case False
    then show ?thesis
      by (simp add: GDEF_class_ranges.simps [of m cf2 topn glyph i] classify_format2_def)
  next
    case True
    with "1.prems" have b: "cf2 + 4 + 6 * i + 6 \<le> length m" by simp
    have rd: "GET_BE_WORD m (cf2 + 4 + 6 * i) = Some (be_word m (cf2 + 4 + 6 * i))"
      "GET_BE_WORD m (cf2 + 4 + 6 * i + 2) = Some (be_word m (cf2 + 4 + 6 * i + 2))"
      "GET_BE_WORD m (cf2 + 4 + 6 * i + 4) = Some (be_word m (cf2 + 4 + 6 * i + 4))"
      using b by (simp_all add: GET_BE_WORD_def)
    show ?thesis
      using True "1.IH" "1.prems" rd
      by (simp add: GDEF_class_ranges.simps [of m cf2 topn glyph i] upt_conv_Cons
          classify_format2_def)
  qed
qed

lemma GDEF_get_glyph_class_total:
  assumes "GDEF_in_bounds m"
  shows "\<exists>cls msgs. GDEF_get_glyph_class (Ptr m) glyph = Some (cls, msgs)"
proof -
  let ?off = "unat (be_word m 4)"
  from assms have h: "GET_BE_WORD m 4 = Some (be_word m 4)"
    by (simp add: GDEF_in_bounds_def GET_BE_WORD_def)
  show ?thesis
  proof (cases "be_word m 4 = 0")
    case True
    with h show ?thesis by (simp add: GDEF_get_glyph_class_def)
  next
    case False
    with assms have f: "GET_BE_WORD m ?off = Some (be_word m ?off)"
      by (simp add: GDEF_in_bounds_def GET_BE_WORD_def)
    consider (one) "be_word m ?off = 1" | (two) "be_word m ?off = 2"
      | (other) "be_word m ?off \<noteq> 1" "be_word m ?off \<noteq> 2" by blast
    then show ?thesis
    proof cases
      case one
      with assms False
      have b: "?off + 6 + 2 * unat (be_word m (?off + 4)) \<le> length m"
        by (simp add: GDEF_in_bounds_def)
      with h f False one show ?thesis
        by (simp add: GDEF_get_glyph_class_def GET_BE_WORD_Some Let_def)
    next
      case two
      with assms False
      have b: "?off + 4 + 6 * unat (be_word m (?off + 2)) \<le> length m"
        by (simp add: GDEF_in_bounds_def)
      with h f False two show ?thesis
        by (simp add: GDEF_get_glyph_class_def GET_BE_WORD_Some GDEF_class_ranges_find Let_def)
    next
      case other
      with h f False show ?thesis by (simp add: GDEF_get_glyph_class_def Let_def)
    qed
  qed
qed

lemma GDEF_get_glyph_class_ptr_total:
  "(case gdef of NULL \<Rightarrow> True | Ptr m \<Rightarrow> GDEF_in_bounds m) \<Longrightarrow>
   \<exists>cls msgs. GDEF_get_glyph_class gdef glyph = Some (cls, msgs)"
  by (cases gdef) (simp_all add: GDEF_get_glyph_class_total, simp add: GDEF_get_glyph_class_def)

lemma count_chars_value:
  "cChars \<le> length pwLogClust \<Longrightarrow>
   count_chars pwLogClust cChars i k n =
     Some (n + length (filter (\<lambda>c. unat c = i) (drop k (take cChars pwLogClust))))"
proof (induction pwLogClust cChars i k n rule: count_chars.induct)
  case (1 pwLogClust cChars i k n)
  show ?case
  proof (cases "k < cChars")
    case False
    then show ?thesis by (simp add: count_chars.simps [of pwLogClust cChars i k n])
  next
    case True
    with "1.prems" have kl: "k < length (take cChars pwLogClust)" by simp
    from True "1.prems" have el: "elem pwLogClust k = Some (pwLogClust ! k)"
      by (simp add: elem_def)
    have dr: "drop k (take cChars pwLogClust) =
        pwLogClust ! k # drop (Suc k) (take cChars pwLogClust)"
      using Cons_nth_drop_Suc [OF kl] True by simp
    show ?thesis
      using True el "1.IH" [OF True el "1.prems"]
      by (simp add: count_chars.simps [of pwLogClust cChars i k n] dr)
  qed
qed

lemma class_flags_annotate:
  "class_flags cls v0 = (v, ms) \<Longrightarrow>
   (if char_count = 0 then v\<lparr>fClusterStart := False\<rparr> else v) = annotate_glyph cls char_count"
  by (auto simp: class_flags_def annotate_glyph_def class_row_def BaseGlyph_def
      LigatureGlyph_def MarkGlyph_def ComponentGlyph_def split: if_splits)

lemma glyph_props_loop_result:
  assumes "cGlyphs \<le> length pwGlyphs" "cGlyphs \<le> length pGlyphProp"
    "cChars \<le> length pwLogClust"
    "case gdef of NULL \<Rightarrow> True | Ptr m \<Rightarrow> GDEF_in_bounds m"
  shows "\<exists>props msgs'.
     glyph_props_loop gdef pwGlyphs cGlyphs pwLogClust cChars i pGlyphProp msgs =
       Some (props, msgs') \<and>
     length props = length pGlyphProp \<and>
     (\<forall>j. i \<le> j \<and> j < cGlyphs \<longrightarrow>
        (\<exists>cls ms. GDEF_get_glyph_class gdef (pwGlyphs ! j) = Some (cls, ms) \<and>
           sva (props ! j) = annotate_glyph cls (char_count_of pwLogClust cChars j))) \<and>
     (\<forall>j. j < length pGlyphProp \<and> (j < i \<or> cGlyphs \<le> j) \<longrightarrow> props ! j = pGlyphProp ! j)"
  using assms
proof (induction gdef pwGlyphs cGlyphs pwLogClust cChars i pGlyphProp msgs
    rule: glyph_props_loop.induct)
  case (1 gdef pwGlyphs cGlyphs pwLogClust cChars i pGlyphProp msgs)
  show ?case
  proof (cases "i < cGlyphs")
    case False
    then show ?thesis
      by (auto simp: glyph_props_loop.simps
          [of gdef pwGlyphs cGlyphs pwLogClust cChars i pGlyphProp msgs])
  next
    case True
    let ?cc = "char_count_of pwLogClust cChars i"
    have cc: "count_chars pwLogClust cChars i 0 0 = Some ?cc"
      using "1.prems"(3) by (simp add: count_chars_value char_count_of_def)
    from True "1.prems" have eg: "elem pwGlyphs i = Some (pwGlyphs ! i)"
      and ep: "elem pGlyphProp i = Some (pGlyphProp ! i)" by (simp_all add: elem_def)
    from GDEF_get_glyph_class_ptr_total [OF "1.prems"(4)]
    obtain cls ms where gc: "GDEF_get_glyph_class gdef (pwGlyphs ! i) = Some (cls, ms)"
      by blast
    obtain v ms2 where cf: "class_flags cls (sva (pGlyphProp ! i)) = (v, ms2)"
      by (cases "class_flags cls (sva (pGlyphProp ! i))")
    let ?v' = "if ?cc = 0 then v\<lparr>fClusterStart := False\<rparr> else v"
    let ?props1 = "pGlyphProp[i := (pGlyphProp ! i)\<lparr>sva := ?v'\<rparr>]"
    have v': "?v' = annotate_glyph cls ?cc"
      by (rule class_flags_annotate [OF cf])
    have step: "glyph_props_loop gdef pwGlyphs cGlyphs pwLogClust cChars i pGlyphProp msgs =
        glyph_props_loop gdef pwGlyphs cGlyphs pwLogClust cChars (i + 1) ?props1
          (msgs @ ms @ ms2)"
      using True cc eg gc ep cf
      by (simp add: glyph_props_loop.simps
          [of gdef pwGlyphs cGlyphs pwLogClust cChars i pGlyphProp msgs])
    have "cGlyphs \<le> length ?props1" using "1.prems"(2) by simp
    from "1.IH" [OF True cc eg gc refl ep cf [symmetric] refl refl "1.prems"(1) this
        "1.prems"(3,4)]
    obtain props msgs' where
      r: "glyph_props_loop gdef pwGlyphs cGlyphs pwLogClust cChars (i + 1) ?props1
            (msgs @ ms @ ms2) = Some (props, msgs')"
      and len: "length props = length ?props1"
      and later: "\<forall>j. i + 1 \<le> j \<and> j < cGlyphs \<longrightarrow>
        (\<exists>cls ms. GDEF_get_glyph_class gdef (pwGlyphs ! j) = Some (cls, ms) \<and>
           sva (props ! j) = annotate_glyph cls (char_count_of pwLogClust cChars j))"
      and keep: "\<forall>j. j < length ?props1 \<and> (j < i + 1 \<or> cGlyphs \<le> j) \<longrightarrow>
        props ! j = ?props1 ! j"
      by blast
    from True "1.prems"(2) have il: "i < length pGlyphProp" by simp
    with keep have pi: "props ! i = (pGlyphProp ! i)\<lparr>sva := ?v'\<rparr>" by simp
    have here: "\<forall>j. i \<le> j \<and> j < cGlyphs \<longrightarrow>
        (\<exists>cls ms. GDEF_get_glyph_class gdef (pwGlyphs ! j) = Some (cls, ms) \<and>
           sva (props ! j) = annotate_glyph cls (char_count_of pwLogClust cChars j))"
    proof (intro allI impI)
      fix j assume j: "i \<le> j \<and> j < cGlyphs"
      show "\<exists>cls ms. GDEF_get_glyph_class gdef (pwGlyphs ! j) = Some (cls, ms) \<and>
           sva (props ! j) = annotate_glyph cls (char_count_of pwLogClust cChars j)"
      proof (cases "j = i")
        case True
        with gc pi v' show ?thesis by simp
      next
        case False
        with j later show ?thesis by simp
      qed
    qed
    have old: "\<forall>j. j < length pGlyphProp \<and> (j < i \<or> cGlyphs \<le> j) \<longrightarrow>
        props ! j = pGlyphProp ! j"
    proof (intro allI impI)
      fix j assume j: "j < length pGlyphProp \<and> (j < i \<or> cGlyphs \<le> j)"
      with True have "j \<noteq> i" by auto
      with j keep show "props ! j = pGlyphProp ! j" by auto
    qed
    from step r len here old show ?thesis by simp
  qed
qed

section \<open>The search over the segment groups: lemmas\<close>

lemma compare_group_value:
  "g + 8 \<le> length m \<Longrightarrow>
   compare_group m c g =
     Some (if c < be_dword m g then - 1 else if be_dword m (g + 4) < c then 1 else 0)"
  by (simp add: compare_group_def GET_BE_DWORD_Some)

lemma bsearch_loop_total:
  "base + 12 * u \<le> length m \<Longrightarrow> \<exists>r. bsearch_loop (compare_group m) c base 12 l u = Some r"
proof (induction "compare_group m" c base "12::nat" l u rule: bsearch_loop.induct)
  case (1 key base l u)
  show ?case
  proof (cases "l < u")
    case False
    then show ?thesis by (simp add: bsearch_loop.simps [of _ key base 12 l u])
  next
    case True
    let ?idx = "(l + u) div 2"
    from True have iu: "?idx < u" by simp
    with "1.prems" have b: "base + ?idx * 12 + 8 \<le> length m" by simp
    note cg = compare_group_value [OF b, of key]
    from iu "1.prems" have b1: "base + 12 * ?idx \<le> length m" by simp
    show ?thesis
      using True cg "1.hyps"(1) [OF True refl refl cg, OF _ b1] "1.hyps"(2) [OF True refl refl cg, OF _ _ "1.prems"]
      by (simp add: bsearch_loop.simps [of _ key base 12 l u] Let_def)
  qed
qed


lemma bsearch_loop_Ptr:
  "base + 12 * u \<le> length m \<Longrightarrow>
   bsearch_loop (compare_group m) c base 12 l u = Some (Ptr p) \<Longrightarrow>
   \<exists>k. l \<le> k \<and> k < u \<and> p = base + 12 * k \<and> group_holds m base c k"
proof (induction "compare_group m" c base "12::nat" l u rule: bsearch_loop.induct)
  case (1 key base l u)
  show ?case
  proof (cases "l < u")
    case False
    with "1.prems" show ?thesis by (simp add: bsearch_loop.simps [of _ key base 12 l u])
  next
    case True
    let ?idx = "(l + u) div 2"
    from True have iu: "?idx < u" and li: "l \<le> ?idx" by simp_all
    with "1.prems" have b: "base + ?idx * 12 + 8 \<le> length m" by simp
    note cg = compare_group_value [OF b, of key]
    from iu "1.prems" have b1: "base + 12 * ?idx \<le> length m" by simp
    consider (lt) "key < be_dword m (base + ?idx * 12)"
      | (gt) "\<not> key < be_dword m (base + ?idx * 12)" "be_dword m (base + ?idx * 12 + 4) < key"
      | (eq) "\<not> key < be_dword m (base + ?idx * 12)" "\<not> be_dword m (base + ?idx * 12 + 4) < key"
      by blast
    then show ?thesis
    proof cases
      case lt
      with True cg "1.prems"(2)
      have "bsearch_loop (compare_group m) key base 12 l ?idx = Some (Ptr p)"
        by (simp add: bsearch_loop.simps [of _ key base 12 l u] Let_def)
      from "1.hyps"(1) [OF True refl refl cg _ b1 this] lt
      obtain k where "l \<le> k" "k < ?idx" "p = base + 12 * k" "group_holds m base key k" by auto
      with iu show ?thesis by (intro exI [of _ k]) simp
    next
      case gt
      with True cg "1.prems"(2)
      have "bsearch_loop (compare_group m) key base 12 (?idx + 1) u = Some (Ptr p)"
        by (simp add: bsearch_loop.simps [of _ key base 12 l u] Let_def)
      from "1.hyps"(2) [OF True refl refl cg _ _ "1.prems"(1) this] gt
      obtain k where "?idx + 1 \<le> k" "k < u" "p = base + 12 * k" "group_holds m base key k" by auto
      with li show ?thesis by (intro exI [of _ k]) simp
    next
      case eq
      with True cg "1.prems"(2) have "p = base + ?idx * 12"
        by (simp add: bsearch_loop.simps [of _ key base 12 l u] Let_def)
      with eq li iu show ?thesis
        by (intro exI [of _ ?idx]) (simp add: group_holds_def mult.commute not_less)
    qed
  qed
qed

lemma bsearch_loop_NULL:
  "base + 12 * u \<le> length m \<Longrightarrow> u \<le> n \<Longrightarrow> ascending_at m base n \<Longrightarrow>
   bsearch_loop (compare_group m) c base 12 l u = Some NULL \<Longrightarrow>
   \<forall>k. l \<le> k \<and> k < u \<longrightarrow> \<not> group_holds m base c k"
proof (induction "compare_group m" c base "12::nat" l u rule: bsearch_loop.induct)
  case (1 key base l u)
  note asc = \<open>ascending_at m base n\<close>
  show ?case
  proof (cases "l < u")
    case False
    then show ?thesis by auto
  next
    case True
    let ?idx = "(l + u) div 2"
    from True have iu: "?idx < u" and li: "l \<le> ?idx" by simp_all
    with "1.prems" have b: "base + ?idx * 12 + 8 \<le> length m" by simp
    note cg = compare_group_value [OF b, of key]
    from iu "1.prems" have b1: "base + 12 * ?idx \<le> length m" and b2: "?idx \<le> n" by simp_all
    have se: "be_dword m (base + 12 * ?idx) \<le> be_dword m (base + 12 * ?idx + 4)"
      using asc iu \<open>u \<le> n\<close> by (simp add: ascending_at_def)
    consider (lt) "key < be_dword m (base + ?idx * 12)"
      | (gt) "\<not> key < be_dword m (base + ?idx * 12)" "be_dword m (base + ?idx * 12 + 4) < key"
      | (eq) "\<not> key < be_dword m (base + ?idx * 12)" "\<not> be_dword m (base + ?idx * 12 + 4) < key"
      by blast
    then show ?thesis
    proof cases
      case lt
      with True cg "1.prems"(4)
      have "bsearch_loop (compare_group m) key base 12 l ?idx = Some NULL"
        by (simp add: bsearch_loop.simps [of _ key base 12 l u] Let_def)
      from "1.hyps"(1) [OF True refl refl cg _ b1 b2 asc this] lt
      have left: "\<forall>k. l \<le> k \<and> k < ?idx \<longrightarrow> \<not> group_holds m base key k" by simp
      show ?thesis
      proof (intro allI impI)
        fix k assume k: "l \<le> k \<and> k < u"
        show "\<not> group_holds m base key k"
        proof (cases "k < ?idx")
          case True
          with left k show ?thesis by simp
        next
          case False
          then have "k = ?idx \<or> ?idx < k" by arith
          then show ?thesis
          proof
            assume "k = ?idx"
            with lt show ?thesis by (auto simp: group_holds_def mult.commute)
          next
            assume "?idx < k"
            with asc k \<open>u \<le> n\<close>
            have "be_dword m (base + 12 * ?idx + 4) < be_dword m (base + 12 * k)"
              by (simp add: ascending_at_def)
            with se lt show ?thesis by (auto simp: group_holds_def mult.commute)
          qed
        qed
      qed
    next
      case gt
      with True cg "1.prems"(4)
      have "bsearch_loop (compare_group m) key base 12 (?idx + 1) u = Some NULL"
        by (simp add: bsearch_loop.simps [of _ key base 12 l u] Let_def)
      from "1.hyps"(2) [OF True refl refl cg _ _ "1.prems"(1,2) asc this] gt
      have right: "\<forall>k. ?idx + 1 \<le> k \<and> k < u \<longrightarrow> \<not> group_holds m base key k" by simp
      show ?thesis
      proof (intro allI impI)
        fix k assume k: "l \<le> k \<and> k < u"
        show "\<not> group_holds m base key k"
        proof (cases "?idx < k")
          case True
          with right k show ?thesis by simp
        next
          case False
          then have "k = ?idx \<or> k < ?idx" by arith
          then show ?thesis
          proof
            assume "k = ?idx"
            with gt show ?thesis by (auto simp: group_holds_def mult.commute)
          next
            assume "k < ?idx"
            with asc iu \<open>u \<le> n\<close>
            have "be_dword m (base + 12 * k + 4) < be_dword m (base + 12 * ?idx)"
              by (simp add: ascending_at_def)
            with se gt show ?thesis by (auto simp: group_holds_def mult.commute)
          qed
        qed
      qed
    next
      case eq
      with True cg "1.prems"(4) show ?thesis
        by (simp add: bsearch_loop.simps [of _ key base 12 l u] Let_def)
    qed
  qed
qed


lemma CMAP_groups_length: "length (CMAP_groups m f) = unat (be_dword m (f + 12))"
  by (simp add: CMAP_groups_def)

lemma CMAP_groups_nth:
  "k < unat (be_dword m (f + 12)) \<Longrightarrow>
   CMAP_groups m f ! k =
     (be_dword m (f + 16 + 12 * k), be_dword m (f + 16 + 12 * k + 4),
      be_dword m (f + 16 + 12 * k + 8))"
  by (simp add: CMAP_groups_def)

lemma groups_ascending_at:
  assumes "groups_ascending (CMAP_groups m f)"
  shows "ascending_at m (f + 16) (unat (be_dword m (f + 12)))"
proof -
  let ?n = "unat (be_dword m (f + 12))"
  from assms have a: "\<forall>k<?n. (case CMAP_groups m f ! k of (s, e, g) \<Rightarrow> s \<le> e)"
    by (simp add: groups_ascending_def list_all_length CMAP_groups_length)
  from assms have b: "\<forall>j k. j < k \<longrightarrow> k < ?n \<longrightarrow>
      (case CMAP_groups m f ! j of (s, e, g) \<Rightarrow>
         (case CMAP_groups m f ! k of (s', e', g') \<Rightarrow> e < s'))"
    by (simp add: groups_ascending_def sorted_wrt_iff_nth_less CMAP_groups_length
        case_prod_beta)
  show ?thesis
    unfolding ascending_at_def
  proof (intro conjI allI impI)
    fix k assume "k < ?n"
    with a show "be_dword m (f + 16 + 12 * k) \<le> be_dword m (f + 16 + 12 * k + 4)"
      by (auto simp: CMAP_groups_nth)
  next
    fix j k assume jk: "j < k \<and> k < ?n"
    then have "j < ?n" by simp
    with b jk show "be_dword m (f + 16 + 12 * j + 4) < be_dword m (f + 16 + 12 * k)"
      by (auto simp: CMAP_groups_nth)
  qed
qed

lemma group_holds_nth:
  "k < unat (be_dword m (f + 12)) \<Longrightarrow>
   group_holds m (f + 16) c k =
     (case CMAP_groups m f ! k of (s, e, g) \<Rightarrow> s \<le> c \<and> c \<le> e)"
  by (simp add: group_holds_def CMAP_groups_nth)

lemma ascending_unique:
  assumes "ascending_at m base n" "group_holds m base c j" "group_holds m base c k" "j < n" "k < n"
  shows "j = k"
proof (rule ccontr)
  assume "j \<noteq> k"
  then consider "j < k" | "k < j" by arith
  then show False
  proof cases
    case 1
    with assms have "be_dword m (base + 12 * j + 4) < be_dword m (base + 12 * k)"
      by (simp add: ascending_at_def)
    with assms(2,3) show False by (auto simp: group_holds_def)
  next
    case 2
    with assms have "be_dword m (base + 12 * k + 4) < be_dword m (base + 12 * j)"
      by (simp add: ascending_at_def)
    with assms(2,3) show False by (auto simp: group_holds_def)
  qed
qed

lemma bsearch_groups:
  assumes ib: "format12_in_bounds m f"
  shows "\<exists>r. bsearch c (f + 16) (unat (be_dword m (f + 12))) 12 (compare_group m) = Some r \<and>
     (case r of
        NULL \<Rightarrow>
          groups_ascending (CMAP_groups m f) \<longrightarrow>
          find (\<lambda>(s, e, g). s \<le> c \<and> c \<le> e) (CMAP_groups m f) = None
      | Ptr p \<Rightarrow>
          (\<exists>k < unat (be_dword m (f + 12)). p = f + 16 + 12 * k \<and>
             (case CMAP_groups m f ! k of (s, e, g) \<Rightarrow> s \<le> c \<and> c \<le> e) \<and>
             (groups_ascending (CMAP_groups m f) \<longrightarrow>
              find (\<lambda>(s, e, g). s \<le> c \<and> c \<le> e) (CMAP_groups m f) = Some (CMAP_groups m f ! k))))"
proof -
  let ?n = "unat (be_dword m (f + 12))"
  let ?P = "\<lambda>(s, e, g). s \<le> c \<and> c \<le> e"
  let ?gs = "CMAP_groups m f"
  from ib have b: "f + 16 + 12 * ?n \<le> length m" by (simp add: format12_in_bounds_def)
  from bsearch_loop_total [OF b, of c 0]
  obtain r where r: "bsearch_loop (compare_group m) c (f + 16) 12 0 ?n = Some r" by blast
  show ?thesis
  proof (cases r)
    case NULL
    have "find ?P ?gs = None" if asc: "groups_ascending ?gs"
    proof -
      from bsearch_loop_NULL [OF b le_refl groups_ascending_at [OF asc] r [unfolded NULL]]
      have "\<forall>k<?n. \<not> group_holds m (f + 16) c k" by simp
      then have "\<forall>k<?n. \<not> ?P (?gs ! k)" by (simp add: group_holds_nth)
      then show ?thesis
        by (auto simp: find_None_iff in_set_conv_nth CMAP_groups_length)
    qed
    with r NULL show ?thesis by (simp add: bsearch_def)
  next
    case (Ptr p)
    from bsearch_loop_Ptr [OF b r [unfolded Ptr]]
    obtain k where k: "k < ?n" "p = f + 16 + 12 * k" "group_holds m (f + 16) c k" by auto
    then have pk: "?P (?gs ! k)" by (simp add: group_holds_nth)
    have "find ?P ?gs = Some (?gs ! k)" if asc: "groups_ascending ?gs"
    proof -
      have "\<not> ?P (?gs ! j)" if "j < k" for j
      proof
        assume "?P (?gs ! j)"
        with that k(1) have "group_holds m (f + 16) c j" by (simp add: group_holds_nth)
        from ascending_unique [OF groups_ascending_at [OF asc] this k(3)] that k(1)
        show False by simp
      qed
      then have "\<forall>j<k. \<not> ?P (?gs ! j)" by blast
      with pk k(1) have "\<exists>i<length ?gs. ?P (?gs ! i) \<and> ?gs ! k = ?gs ! i \<and> (\<forall>j<i. \<not> ?P (?gs ! j))"
        by (intro exI [of _ k]) (simp add: CMAP_groups_length)
      then show ?thesis by (simp only: find_Some_iff)
    qed
    with r Ptr k pk show ?thesis by (auto simp: bsearch_def)
  qed
qed


lemma CMAP_encoding_records_total:
  "CMAP_in_bounds m \<Longrightarrow>
   \<exists>r. CMAP_encoding_records m i = Some r \<and>
       (case r of NULL \<Rightarrow> True | Ptr f \<Rightarrow> format12_in_bounds m f)"
proof (induction m i rule: CMAP_encoding_records.induct)
  case (1 m i)
  let ?n = "unat (be_word m 2)"
  from "1.prems" have len: "4 + 8 * ?n \<le> length m" by (simp add: CMAP_in_bounds_def)
  then have nt: "GET_BE_WORD m 2 = Some (be_word m 2)" by (simp add: GET_BE_WORD_def)
  show ?case
  proof (cases "i < ?n")
    case False
    with nt show ?thesis by (simp add: CMAP_encoding_records.simps [of m i])
  next
    case True
    with len have b: "4 + 8 * i + 8 \<le> length m" by simp
    then have rd: "GET_BE_WORD m (4 + 8 * i) = Some (be_word m (4 + 8 * i))"
      "GET_BE_WORD m (4 + 8 * i + 2) = Some (be_word m (4 + 8 * i + 2))"
      "GET_BE_DWORD m (4 + 8 * i + 4) = Some (be_dword m (4 + 8 * i + 4))"
      by (simp_all add: GET_BE_WORD_def GET_BE_DWORD_def)
    let ?off = "unat (be_dword m (4 + 8 * i + 4))"
    from "1.prems" True
    have rec: "be_word m (4 + 8 * i) = 3 \<and> be_word m (4 + 8 * i + 2) = 10 \<longrightarrow>
       ?off + 2 \<le> length m \<and> (be_word m ?off = 12 \<longrightarrow> format12_in_bounds m ?off)"
      by (simp add: CMAP_in_bounds_def list_all_iff)
    show ?thesis
    proof (cases "be_word m (4 + 8 * i) = 3")
      case False
      with "1.IH"(3) [OF nt True rd(1) False "1.prems"] nt True rd
      show ?thesis by (simp add: CMAP_encoding_records.simps [of m i])
    next
      case p3: True
      show ?thesis
      proof (cases "be_word m (4 + 8 * i + 2) = 10")
        case False
        with "1.IH"(2) [OF nt True rd(1) p3 rd(2) False "1.prems"] nt True rd p3
        show ?thesis by (simp add: CMAP_encoding_records.simps [of m i])
      next
        case e10: True
        with rec p3 have ob: "?off + 2 \<le> length m"
          and f12: "be_word m ?off = 12 \<longrightarrow> format12_in_bounds m ?off" by simp_all
        from ob have rf: "GET_BE_WORD m ?off = Some (be_word m ?off)"
          by (simp add: GET_BE_WORD_def)
        show ?thesis
        proof (cases "be_word m ?off = 12")
          case True
          with f12 nt \<open>i < ?n\<close> rd p3 e10 rf show ?thesis
            by (simp add: CMAP_encoding_records.simps [of m i])
        next
          case False
          with "1.IH"(1) [OF nt \<open>i < ?n\<close> rd(1) p3 rd(2) e10 rd(3) rf False "1.prems"]
            nt \<open>i < ?n\<close> rd p3 e10 rf
          show ?thesis by (simp add: CMAP_encoding_records.simps [of m i])
        qed
      qed
    qed
  qed
qed

lemma GetGlyphIndex_cached:
  assumes "0x10000 \<le> c" "CMAP_Table (psc w) = Ptr m" "CMAP_format12_Table (psc w) = Ptr f"
    and ib: "format12_in_bounds m f"
  shows "\<exists>pgi'. OpenType_CMAP_GetGlyphIndex e c pgi flags w = Some ((0, pgi'), w) \<and>
      (groups_ascending (CMAP_groups m f) \<longrightarrow>
         pgi' = resolve_format12 (CMAP_groups m f) c (not_found_glyph flags)) \<and>
      (pgi' = not_found_glyph flags \<or>
       (\<exists>(s, e, g) \<in> set (CMAP_groups m f). s \<le> c \<and> c \<le> e \<and> pgi' = ucast (g + (c - s))))"
proof -
  let ?n = "unat (be_dword m (f + 12))"
  let ?gs = "CMAP_groups m f"
  from ib have b: "f + 16 + 12 * ?n \<le> length m" by (simp add: format12_in_bounds_def)
  then have ng: "GET_BE_DWORD m (f + 12) = Some (be_dword m (f + 12))"
    by (simp add: GET_BE_DWORD_def)
  from bsearch_groups [OF ib, of c] obtain r where
    r: "bsearch c (f + 16) ?n 12 (compare_group m) = Some r"
    and rp: "case r of
        NULL \<Rightarrow> groups_ascending ?gs \<longrightarrow> find (\<lambda>(s, e, g). s \<le> c \<and> c \<le> e) ?gs = None
      | Ptr p \<Rightarrow> (\<exists>k < ?n. p = f + 16 + 12 * k \<and>
             (case ?gs ! k of (s, e, g) \<Rightarrow> s \<le> c \<and> c \<le> e) \<and>
             (groups_ascending ?gs \<longrightarrow>
              find (\<lambda>(s, e, g). s \<le> c \<and> c \<le> e) ?gs = Some (?gs ! k)))"
    by blast
  from assms(1) have nb: "\<not> c < 0x10000" by (simp add: not_less)
  show ?thesis
  proof (cases r)
    case NULL
    with rp have "groups_ascending ?gs \<longrightarrow>
        resolve_format12 ?gs c (not_found_glyph flags) = not_found_glyph flags"
      by (simp add: resolve_format12_def)
    with nb assms(2,3) ng r NULL show ?thesis
      by (simp add: OpenType_CMAP_GetGlyphIndex_def not_found_glyph_def)
  next
    case (Ptr p)
    with rp obtain k where k: "k < ?n" "p = f + 16 + 12 * k"
      "case ?gs ! k of (s, e, g) \<Rightarrow> s \<le> c \<and> c \<le> e"
      "groups_ascending ?gs \<longrightarrow> find (\<lambda>(s, e, g). s \<le> c \<and> c \<le> e) ?gs = Some (?gs ! k)"
      by auto
    from k(1) b have pb: "p + 12 \<le> length m" unfolding k(2) by simp
    then have rd: "GET_BE_DWORD m p = Some (be_dword m p)"
      "GET_BE_DWORD m (p + 8) = Some (be_dword m (p + 8))"
      by (simp_all add: GET_BE_DWORD_def)
    have gk: "?gs ! k = (be_dword m p, be_dword m (p + 4), be_dword m (p + 8))"
      using k(1) unfolding k(2) by (simp add: CMAP_groups_nth)
    let ?res = "ucast (be_dword m (p + 8) + (c - be_dword m p)) :: WORD"
    have run: "OpenType_CMAP_GetGlyphIndex e c pgi flags w = Some ((0, ?res), w)"
      using nb assms(2,3) ng r Ptr rd by (simp add: OpenType_CMAP_GetGlyphIndex_def)
    have a: "groups_ascending ?gs \<longrightarrow> ?res = resolve_format12 ?gs c (not_found_glyph flags)"
      using k(4) gk by (simp add: resolve_format12_def)
    have "?gs ! k \<in> set ?gs" using k(1) by (simp add: CMAP_groups_length)
    with k(3) gk have "\<exists>(s, e, g) \<in> set ?gs. s \<le> c \<and> c \<le> e \<and> ?res = ucast (g + (c - s))"
      by (intro bexI [of _ "?gs ! k"]) simp_all
    with run a show ?thesis by simp
  qed
qed

lemma find_group_numbers:
  "find (\<lambda>(s, e, g). s \<le> unat c \<and> unat c \<le> e) (map group_numbers gs) =
   map_option group_numbers (find (\<lambda>(s, e, g). s \<le> c \<and> c \<le> e) gs)"
  by (induction gs) (auto simp: group_numbers_def word_le_nat_alt)

lemma glyph_low_bits:
  fixes s c g :: DWORD
  assumes "s \<le> c"
  shows "unat (ucast (g + (c - s)) :: WORD) = (unat g + (unat c - unat s)) mod 65536"
proof -
  have "unat (ucast (g + (c - s)) :: WORD) = unat (g + (c - s)) mod 2 ^ 16"
    by (simp add: unsigned_ucast_eq take_bit_eq_mod)
  also have "unat (g + (c - s)) = (unat g + (unat c - unat s)) mod 2 ^ 32"
    using assms by (simp add: unat_word_ariths unat_sub)
  also have "(unat g + (unat c - unat s)) mod 2 ^ 32 mod 2 ^ 16 =
      (unat g + (unat c - unat s)) mod 2 ^ 16"
    by (simp add: mod_mod_cancel)
  finally show ?thesis by simp
qed

lemma resolve_format12_spec:
  "unat (resolve_format12 gs c nf) =
     spec_resolve_glyph (map group_numbers gs) (unat c) (unat nf) mod 65536"
proof (cases "find (\<lambda>(s, e, g). s \<le> c \<and> c \<le> e) gs")
  case None
  have "unat nf < 65536" using unsigned_less [of nf] by simp
  then have "unat nf mod 65536 = unat nf" by simp
  with None show ?thesis
    unfolding resolve_format12_def spec_resolve_glyph_def find_group_numbers by simp
next
  case (Some x)
  obtain s e g where x: "x = (s, e, g)" by (cases x)
  from Some x have "s \<le> c" by (auto simp: find_Some_iff)
  from glyph_low_bits [OF this, of g] Some x show ?thesis
    unfolding resolve_format12_def spec_resolve_glyph_def find_group_numbers
    by (simp add: group_numbers_def)
qed

lemma compare_group_nth:
  assumes "format12_in_bounds m f" "k < unat (be_dword m (f + 12))"
  shows "compare_group m c (f + 16 + 12 * k) =
     Some (case CMAP_groups m f ! k of (s, e, g) \<Rightarrow>
             if c < s then - 1 else if e < c then 1 else 0)"
proof -
  from assms have "f + 16 + 12 * k + 8 \<le> length m" by (simp add: format12_in_bounds_def)
  from compare_group_value [OF this, of c] assms(2) show ?thesis
    by (simp add: CMAP_groups_nth)
qed


lemma load_CMAP_total:
  assumes "cmap_ready e w" "CMAP_format12_Table (psc w) = NULL"
  shows "\<exists>t w'. load_CMAP_format12_table e w = Some (t, w') \<and>
     CMAP_format12_Table (psc w') = NULL \<and>
     (case t of NULL \<Rightarrow> True
      | Ptr f \<Rightarrow> \<exists>m. CMAP_Table (psc w') = Ptr m \<and> format12_in_bounds m f)"
proof (cases "CMAP_Table (psc w)")
  case (Ptr m)
  with assms have "CMAP_in_bounds m" by (simp add: cmap_ready_def)
  from CMAP_encoding_records_total [OF this, of 0] obtain r where
    "CMAP_encoding_records m 0 = Some r"
    "case r of NULL \<Rightarrow> True | Ptr f \<Rightarrow> format12_in_bounds m f" by blast
  with Ptr assms(2) show ?thesis
    by (cases r) (simp_all add: load_CMAP_format12_table_def)
next
  case NULL
  show ?thesis
  proof (cases "fd_size e (length (fd_calls w)) CMAP_TAG")
    case None
    with NULL assms(2) show ?thesis
      by (simp add: load_CMAP_format12_table_def GetFontData_size_def)
  next
    case (Some n)
    let ?buf = "fetched e CMAP_TAG w n"
    from Some NULL assms have "CMAP_in_bounds ?buf" by (simp add: cmap_ready_def)
    from CMAP_encoding_records_total [OF this, of 0] obtain r where
      "CMAP_encoding_records ?buf 0 = Some r"
      "case r of NULL \<Rightarrow> True | Ptr f \<Rightarrow> format12_in_bounds ?buf f" by blast
    with NULL Some assms(2) show ?thesis
      by (cases r)
        (simp_all add: load_CMAP_format12_table_def GetFontData_size_def
          GetFontData_fill_def fetched_def)
  qed
qed

lemma GetGlyphIndex_total:
  assumes c: "0x10000 \<le> c" and rdy: "cmap_ready e w"
  shows "\<exists>pgi' w'. OpenType_CMAP_GetGlyphIndex e c pgi flags w = Some ((0, pgi'), w') \<and>
      (pgi' = not_found_glyph flags \<or>
       (\<exists>m f. CMAP_Table (psc w') = Ptr m \<and> CMAP_format12_Table (psc w') = Ptr f \<and>
          (\<exists>(s, e, g) \<in> set (CMAP_groups m f).
             s \<le> c \<and> c \<le> e \<and> pgi' = ucast (g + (c - s)))))"
proof (cases "CMAP_format12_Table (psc w)")
  case (Ptr f)
  with rdy obtain m where m: "CMAP_Table (psc w) = Ptr m" "format12_in_bounds m f"
    by (cases "CMAP_Table (psc w)") (simp_all add: cmap_ready_def)
  from GetGlyphIndex_cached [OF c m(1) Ptr m(2), of e pgi flags] m(1) Ptr
  show ?thesis by blast
next
  case NULL
  from c have nb: "\<not> c < 0x10000" by (simp add: not_less)
  from load_CMAP_total [OF rdy NULL] obtain t w' where
    l: "load_CMAP_format12_table e w = Some (t, w')"
    and t: "case t of NULL \<Rightarrow> True
      | Ptr f \<Rightarrow> \<exists>m. CMAP_Table (psc w') = Ptr m \<and> format12_in_bounds m f"
    by blast
  let ?w1 = "w'\<lparr>psc := (psc w')\<lparr>CMAP_format12_Table := t\<rparr>\<rparr>"
  show ?thesis
  proof (cases t)
    case tn: NULL
    with nb NULL l show ?thesis
      by (simp add: OpenType_CMAP_GetGlyphIndex_def not_found_glyph_def)
  next
    case (Ptr f)
    with t obtain m where m: "CMAP_Table (psc w') = Ptr m" "format12_in_bounds m f" by auto
    have w1: "CMAP_Table (psc ?w1) = Ptr m" "CMAP_format12_Table (psc ?w1) = Ptr f"
      using m(1) Ptr by simp_all
    have same: "OpenType_CMAP_GetGlyphIndex e c pgi flags w =
        OpenType_CMAP_GetGlyphIndex e c pgi flags ?w1"
      using nb NULL l Ptr by (simp add: OpenType_CMAP_GetGlyphIndex_def)
    from GetGlyphIndex_cached [OF c w1 m(2), of e pgi flags] obtain pgi' where
      r: "OpenType_CMAP_GetGlyphIndex e c pgi flags ?w1 = Some ((0, pgi'), ?w1)"
      and p: "pgi' = not_found_glyph flags \<or>
        (\<exists>(s, e, g) \<in> set (CMAP_groups m f).
           s \<le> c \<and> c \<le> e \<and> pgi' = ucast (g + (c - s)))"
      by blast
    from p w1 have "pgi' = not_found_glyph flags \<or>
       (\<exists>m f. CMAP_Table (psc ?w1) = Ptr m \<and> CMAP_format12_Table (psc ?w1) = Ptr f \<and>
          (\<exists>(s, e, g) \<in> set (CMAP_groups m f).
             s \<le> c \<and> c \<le> e \<and> pgi' = ucast (g + (c - s))))"
      by blast
    with r same show ?thesis by (intro exI [of _ pgi'] exI [of _ ?w1]) simp
  qed
qed

lemma cmap_example_groups: "CMAP_groups cmap_example 12 = [(0x10000, 0x10002, 5)]"
  by (simp add: CMAP_groups_def cmap_example_def be_dword_def upt_conv_Cons)


lemma UpdateGlyphProps_world:
  "OpenType_GDEF_UpdateGlyphProps e pwGlyphs cGlyphs pwLogClust cChars pGlyphProp w =
     Some (props, w') \<Longrightarrow>
   GDEF_Table (psc w') = gdef_table_used e w \<and>
   CMAP_Table (psc w') = CMAP_Table (psc w) \<and>
   CMAP_format12_Table (psc w') = CMAP_format12_Table (psc w) \<and>
   fd_calls w' =
     (case GDEF_Table (psc w) of
        Ptr m \<Rightarrow> fd_calls w
      | NULL \<Rightarrow>
          (case fd_size e (length (fd_calls w)) GDEF_TAG of
             None \<Rightarrow> fd_calls w @ [Size_query GDEF_TAG]
           | Some n \<Rightarrow> fd_calls w @ [Size_query GDEF_TAG, Fill GDEF_TAG n]))"
  by (auto simp: OpenType_GDEF_UpdateGlyphProps_def gdef_table_used_def load_gdef_table_def
      GetFontData_size_def GetFontData_fill_def fetched_def HeapAlloc_def Let_def
      Option.bind_eq_Some_conv split: ptr.splits option.splits)


lemma UpdateGlyphProps_loop:
  "OpenType_GDEF_UpdateGlyphProps e pwGlyphs cGlyphs pwLogClust cChars pGlyphProp w =
     (case glyph_props_loop (gdef_table_used e w) pwGlyphs (unat cGlyphs) pwLogClust
             (unat cChars) 0 pGlyphProp [] of
        None \<Rightarrow> None
      | Some (props, msgs) \<Rightarrow>
          Some (props,
            (case GDEF_Table (psc w) of
               NULL \<Rightarrow> (case load_gdef_table e w of
                          (t, w') \<Rightarrow> w'\<lparr>psc := (psc w')\<lparr>GDEF_Table := t\<rparr>\<rparr>)
             | Ptr t \<Rightarrow> w)\<lparr>err_log := err_log w @ msgs\<rparr>))"
  by (auto simp: OpenType_GDEF_UpdateGlyphProps_def gdef_table_used_def load_gdef_table_def
      GetFontData_size_def GetFontData_fill_def fetched_def Let_def
      split: ptr.splits option.splits)

lemma load_CMAP_cached:
  "CMAP_Table (psc w) = Ptr m \<Longrightarrow>
   load_CMAP_format12_table e w = map_option (\<lambda>r. (r, w)) (CMAP_encoding_records m 0)"
  by (cases "CMAP_encoding_records m 0") (simp_all add: load_CMAP_format12_table_def)

lemma load_CMAP_fetch:
  assumes "CMAP_Table (psc w) = NULL" "fd_size e (length (fd_calls w)) CMAP_TAG = Some n"
    "load_CMAP_format12_table e w = Some (r, w1)"
  shows "w1 = w\<lparr>psc := (psc w)\<lparr>CMAP_Table := Ptr (fetched e CMAP_TAG w n)\<rparr>,
                 fd_calls := fd_calls w @ [Size_query CMAP_TAG, Fill CMAP_TAG n]\<rparr> \<and>
         CMAP_encoding_records (fetched e CMAP_TAG w n) 0 = Some r"
  using assms
  by (auto simp: load_CMAP_format12_table_def GetFontData_size_def GetFontData_fill_def
      fetched_def HeapAlloc_def Option.bind_eq_Some_conv)

lemma load_CMAP_absent:
  "CMAP_Table (psc w) = NULL \<Longrightarrow> fd_size e (length (fd_calls w)) CMAP_TAG = None \<Longrightarrow>
   load_CMAP_format12_table e w = Some (NULL, w\<lparr>fd_calls := fd_calls w @ [Size_query CMAP_TAG]\<rparr>)"
  by (simp add: load_CMAP_format12_table_def GetFontData_size_def)

lemma load_CMAP_calls:
  assumes "CMAP_Table (psc w) = NULL" "load_CMAP_format12_table e w = Some (r, w')"
  shows "take (Suc (length (fd_calls w))) (fd_calls w') = fd_calls w @ [Size_query CMAP_TAG]"
proof (cases "fd_size e (length (fd_calls w)) CMAP_TAG")
  case None
  from load_CMAP_absent [OF assms(1) None] assms(2) show ?thesis by auto
next
  case (Some n)
  from load_CMAP_fetch [OF assms(1) Some assms(2)] show ?thesis by simp
qed

lemma GetGlyphIndex_cached_world:
  assumes "CMAP_format12_Table (psc w) = Ptr f"
    "OpenType_CMAP_GetGlyphIndex e c pgi flags w = Some (r, w')"
  shows "w' = w"
proof (cases "c < 0x10000")
  case True
  with assms show ?thesis by (simp add: OpenType_CMAP_GetGlyphIndex_def)
next
  case False
  show ?thesis
  proof (cases "CMAP_Table (psc w)")
    case NULL
    with False assms show ?thesis by (simp add: OpenType_CMAP_GetGlyphIndex_def)
  next
    case (Ptr m)
    with False assms obtain n grp where
      n: "GET_BE_DWORD m (f + 12) = Some n"
      and g: "bsearch c (f + 16) (unat n) 12 (compare_group m) = Some grp"
      by (auto simp: OpenType_CMAP_GetGlyphIndex_def Option.bind_eq_Some_conv)
    show ?thesis
    proof (cases grp)
      case NULL
      with False assms Ptr n g show ?thesis
        by (simp add: OpenType_CMAP_GetGlyphIndex_def)
    next
      case (Ptr p)
      with False assms \<open>CMAP_Table (psc w) = Ptr m\<close> n g show ?thesis
        by (auto simp: OpenType_CMAP_GetGlyphIndex_def Option.bind_eq_Some_conv)
    qed
  qed
qed

lemma GetGlyphIndex_keeps_table:
  assumes "CMAP_Table (psc w) = Ptr m"
    "OpenType_CMAP_GetGlyphIndex e c pgi flags w = Some (r, w')"
  shows "CMAP_Table (psc w') = Ptr m \<and> fd_calls w' = fd_calls w"
proof (cases "CMAP_format12_Table (psc w)")
  case (Ptr f)
  from GetGlyphIndex_cached_world [OF Ptr assms(2)] assms(1) show ?thesis by simp
next
  case NULL
  show ?thesis
  proof (cases "c < 0x10000")
    case True
    with assms show ?thesis by (simp add: OpenType_CMAP_GetGlyphIndex_def)
  next
    case False
    with NULL assms(2) obtain t where t: "CMAP_encoding_records m 0 = Some t"
      by (auto simp: OpenType_CMAP_GetGlyphIndex_def load_CMAP_cached [OF assms(1)]
          Option.bind_eq_Some_conv)
    let ?w1 = "w\<lparr>psc := (psc w)\<lparr>CMAP_format12_Table := t\<rparr>\<rparr>"
    show ?thesis
    proof (cases t)
      case tn: NULL
      with False NULL assms t show ?thesis
        by (auto simp: OpenType_CMAP_GetGlyphIndex_def load_CMAP_cached [OF assms(1)])
    next
      case (Ptr f)
      have "OpenType_CMAP_GetGlyphIndex e c pgi flags w =
          OpenType_CMAP_GetGlyphIndex e c pgi flags ?w1"
        using False NULL t Ptr
        by (simp add: OpenType_CMAP_GetGlyphIndex_def load_CMAP_cached [OF assms(1)])
      with assms(2) have r: "OpenType_CMAP_GetGlyphIndex e c pgi flags ?w1 = Some (r, w')"
        by simp
      have "CMAP_format12_Table (psc ?w1) = Ptr f" using Ptr by simp
      from GetGlyphIndex_cached_world [OF this r] assms(1) show ?thesis by simp
    qed
  qed
qed


section \<open>The claims\<close>

text \<open>
  C1 (amended). For a codepoint \<open>c \<ge> 0x10000\<close> and a cached format 12 subtable that
  lies within the cached cmap table, the lookup returns 0, leaves the world as it
  is and stores a glyph index: the sentinel, or the low 16 bits of
  \<open>start_glyph + (c - start_char)\<close> for a group with \<open>start_char \<le> c \<le> end_char\<close>. When
  the groups ascend without overlap, the index is the one of the group that holds
  \<open>c\<close>, the sentinel when no group holds \<open>c\<close>; as a number it is the spec's value
  modulo 65536. The comparator gives -1 below a group, 1 above it and 0 inside.
\<close>

theorem CMAP_format12_lookup:
  assumes "0x10000 \<le> c" and "CMAP_Table (psc w) = Ptr m"
    and "CMAP_format12_Table (psc w) = Ptr f" and "format12_in_bounds m f"
  shows "\<exists>pgi'. OpenType_CMAP_GetGlyphIndex e c pgi flags w = Some ((0, pgi'), w) \<and>
      (pgi' = not_found_glyph flags \<or>
       (\<exists>(s, e, g) \<in> set (CMAP_groups m f). s \<le> c \<and> c \<le> e \<and> pgi' = ucast (g + (c - s)))) \<and>
      (groups_ascending (CMAP_groups m f) \<longrightarrow>
         pgi' = resolve_format12 (CMAP_groups m f) c (not_found_glyph flags) \<and>
         unat pgi' =
           spec_resolve_glyph (map group_numbers (CMAP_groups m f)) (unat c)
             (unat (not_found_glyph flags)) mod 65536) \<and>
      (\<forall>k < unat (be_dword m (f + 12)).
         compare_group m c (f + 16 + 12 * k) =
           Some (case CMAP_groups m f ! k of (s, e, g) \<Rightarrow>
                   if c < s then - 1 else if e < c then 1 else 0))"
proof -
  from GetGlyphIndex_cached [OF assms, of e pgi flags] obtain pgi' where
    r: "OpenType_CMAP_GetGlyphIndex e c pgi flags w = Some ((0, pgi'), w)"
    and a: "groups_ascending (CMAP_groups m f) \<longrightarrow>
         pgi' = resolve_format12 (CMAP_groups m f) c (not_found_glyph flags)"
    and b: "pgi' = not_found_glyph flags \<or>
       (\<exists>(s, e, g) \<in> set (CMAP_groups m f). s \<le> c \<and> c \<le> e \<and> pgi' = ucast (g + (c - s)))"
    by blast
  from a have "groups_ascending (CMAP_groups m f) \<longrightarrow>
         unat pgi' =
           spec_resolve_glyph (map group_numbers (CMAP_groups m f)) (unat c)
             (unat (not_found_glyph flags)) mod 65536"
    by (simp add: resolve_format12_spec)
  with r a b compare_group_nth [OF assms(4), of _ c] show ?thesis by blast
qed

theorem CMAP_format12_lookup_witness:
  "OpenType_CMAP_GetGlyphIndex example_env 0x10000 9 0 cmap_loaded_world =
     Some ((0, 5), cmap_loaded_world) \<and>
   OpenType_CMAP_GetGlyphIndex example_env 0x10001 9 0 cmap_loaded_world =
     Some ((0, 6), cmap_loaded_world) \<and>
   OpenType_CMAP_GetGlyphIndex example_env 0x10002 9 0 cmap_loaded_world =
     Some ((0, 7), cmap_loaded_world) \<and>
   OpenType_CMAP_GetGlyphIndex example_env 0x10003 9 0 cmap_loaded_world =
     Some ((0, 0), cmap_loaded_world) \<and>
   OpenType_CMAP_GetGlyphIndex example_env 0x10003 9 1 cmap_loaded_world =
     Some ((0, 0xffff), cmap_loaded_world)"
proof -
  have t: "CMAP_Table (psc cmap_loaded_world) = Ptr cmap_example"
    "CMAP_format12_Table (psc cmap_loaded_world) = Ptr 12"
    by (simp_all add: cmap_loaded_world_def)
  have ib: "format12_in_bounds cmap_example 12"
    by (simp add: format12_in_bounds_def cmap_example_def be_dword_def)
  have asc: "groups_ascending (CMAP_groups cmap_example 12)"
    by (simp add: cmap_example_groups groups_ascending_def)
  have nf: "not_found_glyph 0 = 0" "not_found_glyph 1 = 0xffff"
    by (simp_all add: not_found_glyph_def GGI_MARK_NONEXISTING_GLYPHS_def)
  have c: "(0x10000 :: DWORD) \<le> 0x10000" "(0x10000 :: DWORD) \<le> 0x10001"
    "(0x10000 :: DWORD) \<le> 0x10002" "(0x10000 :: DWORD) \<le> 0x10003"
    by simp_all
  show ?thesis
    using CMAP_format12_lookup [OF c(1) t ib, of example_env 9 0]
      CMAP_format12_lookup [OF c(2) t ib, of example_env 9 0]
      CMAP_format12_lookup [OF c(3) t ib, of example_env 9 0]
      CMAP_format12_lookup [OF c(4) t ib, of example_env 9 0]
      CMAP_format12_lookup [OF c(4) t ib, of example_env 9 1]
      asc
    by (auto simp: cmap_example_groups resolve_format12_def nf)
qed

theorem CMAP_glyph_sum_counterexample:
  "OpenType_CMAP_GetGlyphIndex example_env 0x10001 0 0 cmap_wide_world =
     Some ((0, 0), cmap_wide_world) \<and>
   CMAP_groups cmap_wide_example 12 = [(0x10000, 0x10002, 0xffff)] \<and>
   spec_resolve_glyph [(0x10000, 0x10002, 0xffff)] 0x10001 0 = 0x10000"
proof -
  have a: "OpenType_CMAP_GetGlyphIndex example_env 0x10001 0 0 cmap_wide_world =
     Some ((0, 0), cmap_wide_world)"
    by code_simp
  have b: "CMAP_groups cmap_wide_example 12 = [(0x10000, 0x10002, 0xffff)]"
    by (simp add: CMAP_groups_def cmap_wide_example_def be_dword_def upt_conv_Cons)
  have c: "spec_resolve_glyph [(0x10000, 0x10002, 0xffff)] 0x10001 0 = 0x10000"
    by (simp add: spec_resolve_glyph_def)
  from a b c show ?thesis by simp
qed

text \<open>
  C2. For a codepoint below 0x10000 the result is the one of the BMP lookup of
  the system on the codepoint cut to 16 bits; the world, with the script cache and the
  calls of the font data provider, stays as it is.
\<close>

theorem BMP_lookup_delegated:
  "c < 0x10000 \<Longrightarrow>
   OpenType_CMAP_GetGlyphIndex e c pgi flags w = Some (glyph_indices e (ucast c) pgi flags, w)"
  by (simp add: OpenType_CMAP_GetGlyphIndex_def)

theorem BMP_lookup_delegated_witness:
  "OpenType_CMAP_GetGlyphIndex example_env 0x41 0 0 empty_world = Some ((1, 0x44), empty_world)"
proof -
  have "(0x41 :: DWORD) < 0x10000" by simp
  from BMP_lookup_delegated [OF this, of example_env 0 0 empty_world]
  show ?thesis by (simp add: example_env_def)
qed

text \<open>
  C3. When the arrays hold \<open>cGlyphs\<close> glyphs and properties and \<open>cChars\<close> cluster
  entries, and the GDEF table in use holds what the classifier reads, the call returns
  a property array of the same length in which, for each \<open>i < cGlyphs\<close>, the flags of
  entry \<open>i\<close> are the ones the spec gives for the class of glyph \<open>i\<close> and the number of
  cluster entries equal to \<open>i\<close>; with no such entry, \<open>fClusterStart\<close> is false. The
  entries from \<open>cGlyphs\<close> on are as before.
\<close>

theorem UpdateGlyphProps_annotates:
  assumes "unat cGlyphs \<le> length pwGlyphs" and "unat cGlyphs \<le> length pGlyphProp"
    and "unat cChars \<le> length pwLogClust" and "gdef_ready e w"
  shows "\<exists>props w'.
     OpenType_GDEF_UpdateGlyphProps e pwGlyphs cGlyphs pwLogClust cChars pGlyphProp w =
       Some (props, w') \<and>
     length props = length pGlyphProp \<and>
     (\<forall>i < unat cGlyphs.
        \<exists>cls msgs. GDEF_get_glyph_class (gdef_table_used e w) (pwGlyphs ! i) = Some (cls, msgs) \<and>
          sva (props ! i) = annotate_glyph cls (char_count_of pwLogClust (unat cChars) i) \<and>
          (char_count_of pwLogClust (unat cChars) i = 0 \<longrightarrow> \<not> fClusterStart (sva (props ! i)))) \<and>
     (\<forall>i. unat cGlyphs \<le> i \<and> i < length pGlyphProp \<longrightarrow> props ! i = pGlyphProp ! i)"
proof -
  from assms(4) have g: "case gdef_table_used e w of NULL \<Rightarrow> True | Ptr m \<Rightarrow> GDEF_in_bounds m"
    by (simp add: gdef_ready_def)
  from glyph_props_loop_result [OF assms(1-3) g, of 0 "[]"]
  obtain props msgs where
    l: "glyph_props_loop (gdef_table_used e w) pwGlyphs (unat cGlyphs) pwLogClust
          (unat cChars) 0 pGlyphProp [] = Some (props, msgs)"
    and len: "length props = length pGlyphProp"
    and fl: "\<forall>j. 0 \<le> j \<and> j < unat cGlyphs \<longrightarrow>
        (\<exists>cls ms. GDEF_get_glyph_class (gdef_table_used e w) (pwGlyphs ! j) = Some (cls, ms) \<and>
           sva (props ! j) = annotate_glyph cls (char_count_of pwLogClust (unat cChars) j))"
    and keep: "\<forall>j. j < length pGlyphProp \<and> (j < 0 \<or> unat cGlyphs \<le> j) \<longrightarrow>
        props ! j = pGlyphProp ! j"
    by blast
  have ov: "char_count_of pwLogClust (unat cChars) i = 0 \<longrightarrow>
      \<not> fClusterStart (annotate_glyph cls (char_count_of pwLogClust (unat cChars) i))" for cls i
    by (simp add: annotate_glyph_def split: prod.splits)
  have "\<forall>i < unat cGlyphs.
        \<exists>cls msgs. GDEF_get_glyph_class (gdef_table_used e w) (pwGlyphs ! i) = Some (cls, msgs) \<and>
          sva (props ! i) = annotate_glyph cls (char_count_of pwLogClust (unat cChars) i) \<and>
          (char_count_of pwLogClust (unat cChars) i = 0 \<longrightarrow> \<not> fClusterStart (sva (props ! i)))"
  proof (intro allI impI)
    fix i assume "i < unat cGlyphs"
    with fl obtain cls ms where
      "GDEF_get_glyph_class (gdef_table_used e w) (pwGlyphs ! i) = Some (cls, ms)"
      "sva (props ! i) = annotate_glyph cls (char_count_of pwLogClust (unat cChars) i)"
      by auto
    with ov [of i cls]
    show "\<exists>cls msgs. GDEF_get_glyph_class (gdef_table_used e w) (pwGlyphs ! i) = Some (cls, msgs) \<and>
          sva (props ! i) = annotate_glyph cls (char_count_of pwLogClust (unat cChars) i) \<and>
          (char_count_of pwLogClust (unat cChars) i = 0 \<longrightarrow> \<not> fClusterStart (sva (props ! i)))"
      by auto
  qed
  moreover from keep have "\<forall>i. unat cGlyphs \<le> i \<and> i < length pGlyphProp \<longrightarrow>
      props ! i = pGlyphProp ! i" by simp
  ultimately show ?thesis
    using l len by (simp add: UpdateGlyphProps_loop)
qed

theorem UpdateGlyphProps_annotates_witness:
  "map_option (\<lambda>r. map sva (fst r))
     (OpenType_GDEF_UpdateGlyphProps example_env [10, 11, 10] 3 [0, 0, 1] 3
        [clear_prop, clear_prop, clear_prop] empty_world) =
   Some [\<lparr>fClusterStart = True, fDiacritic = False, fZeroWidth = False\<rparr>,
         \<lparr>fClusterStart = False, fDiacritic = True, fZeroWidth = True\<rparr>,
         \<lparr>fClusterStart = False, fDiacritic = False, fZeroWidth = False\<rparr>]"
proof -
  let ?gl = "[10, 11, 10] :: WORD list" and ?lc = "[0, 0, 1] :: WORD list"
  let ?pr = "[clear_prop, clear_prop, clear_prop]"
  have h: "unat (3 :: WORD) \<le> length ?gl" "unat (3 :: WORD) \<le> length ?pr"
    "unat (3 :: WORD) \<le> length ?lc" by simp_all
  have f: "fetched example_env GDEF_TAG empty_world 22 = gdef_format1_example"
    by code_simp
  have u: "gdef_table_used example_env empty_world = Ptr gdef_format1_example"
    by (simp add: gdef_table_used_def empty_world_def example_env_def
        f [unfolded example_env_def empty_world_def])
  have b: "GDEF_in_bounds gdef_format1_example"
    by (simp add: GDEF_in_bounds_def gdef_format1_example_def be_word_def)
  have r: "gdef_ready example_env empty_world" by (simp add: gdef_ready_def u b)
  have cl: "GDEF_get_glyph_class (Ptr gdef_format1_example) 10 = Some (1, [])"
    "GDEF_get_glyph_class (Ptr gdef_format1_example) 11 = Some (3, [])"
    by (simp_all add: GDEF_get_glyph_class_def gdef_format1_example_def GET_BE_WORD_def
        be_word_def)
  have cc: "char_count_of ?lc 3 0 = 2" "char_count_of ?lc 3 1 = 1" "char_count_of ?lc 3 2 = 0"
    by (simp_all add: char_count_of_def)
  have an: "annotate_glyph 1 2 = \<lparr>fClusterStart = True, fDiacritic = False, fZeroWidth = False\<rparr>"
    "annotate_glyph 3 1 = \<lparr>fClusterStart = False, fDiacritic = True, fZeroWidth = True\<rparr>"
    "annotate_glyph 1 0 = \<lparr>fClusterStart = False, fDiacritic = False, fZeroWidth = False\<rparr>"
    by (simp_all add: annotate_glyph_def class_row_def BaseGlyph_def LigatureGlyph_def
        MarkGlyph_def ComponentGlyph_def)
  from UpdateGlyphProps_annotates [OF h r] obtain props w' where
    run: "OpenType_GDEF_UpdateGlyphProps example_env ?gl 3 ?lc 3 ?pr empty_world =
       Some (props, w')"
    and len: "length props = 3"
    and fl: "\<forall>i < unat (3 :: WORD). \<exists>cls msgs.
        GDEF_get_glyph_class (Ptr gdef_format1_example) (?gl ! i) = Some (cls, msgs) \<and>
        sva (props ! i) = annotate_glyph cls (char_count_of ?lc (unat (3 :: WORD)) i) \<and>
        (char_count_of ?lc (unat (3 :: WORD)) i = 0 \<longrightarrow> \<not> fClusterStart (sva (props ! i)))"
    unfolding u by auto
  from len obtain a b c where pr: "props = [a, b, c]"
    by (auto simp: length_Suc_conv numeral_3_eq_3)
  from fl [rule_format, of 0] have "sva a = annotate_glyph 1 2"
    by (auto simp: pr cl cc)
  moreover from fl [rule_format, of 1] have "sva b = annotate_glyph 3 1"
    by (auto simp: pr cl cc char_count_of_def)
  moreover from fl [rule_format, of 2] have "sva c = annotate_glyph 1 0"
    by (auto simp: pr cl cc)
  ultimately
  have "map sva props = [annotate_glyph 1 2, annotate_glyph 3 1, annotate_glyph 1 0]"
    by (simp add: pr)
  with run show ?thesis by (simp add: an an [simplified])
qed

text \<open>
  C4. In a GDEF table whose class definition has format 1 and holds its
  \<open>GlyphCount\<close> classes, the class of a glyph is \<open>class_array[glyph - start_glyph]\<close>
  when \<open>start_glyph \<le> glyph\<close> and \<open>glyph - start_glyph < glyph_count\<close>, and 0
  (no class) otherwise; nothing is logged.
\<close>

theorem GDEF_format1_class:
  assumes "6 \<le> length m" and "be_word m 4 \<noteq> 0"
    and "be_word m (unat (be_word m 4)) = 1"
    and "unat (be_word m 4) + 6 + 2 * unat (be_word m (unat (be_word m 4) + 4)) \<le> length m"
  shows "GDEF_get_glyph_class (Ptr m) glyph =
           Some (classify_format1 (be_word m (unat (be_word m 4) + 2))
                   (GDEF_ClassValueArray m (unat (be_word m 4))) glyph, [])"
  using assms
  by (simp add: GDEF_get_glyph_class_def GET_BE_WORD_Some classify_format1_def
      GDEF_ClassValueArray_def Let_def)

theorem GDEF_format1_class_witness:
  "be_word gdef_format1_example 14 = 10 \<and>
   GDEF_ClassValueArray gdef_format1_example 12 = [BaseGlyph, MarkGlyph] \<and>
   GDEF_get_glyph_class (Ptr gdef_format1_example) 10 = Some (BaseGlyph, []) \<and>
   GDEF_get_glyph_class (Ptr gdef_format1_example) 11 = Some (MarkGlyph, []) \<and>
   GDEF_get_glyph_class (Ptr gdef_format1_example) 9 = Some (0, []) \<and>
   GDEF_get_glyph_class (Ptr gdef_format1_example) 12 = Some (0, [])"
proof -
  have o: "unat (be_word gdef_format1_example 4) = 12"
    by (simp add: gdef_format1_example_def be_word_def)
  have h: "6 \<le> length gdef_format1_example" "be_word gdef_format1_example 4 \<noteq> 0"
    "be_word gdef_format1_example (unat (be_word gdef_format1_example 4)) = 1"
    "unat (be_word gdef_format1_example 4) + 6 +
       2 * unat (be_word gdef_format1_example (unat (be_word gdef_format1_example 4) + 4))
     \<le> length gdef_format1_example"
    by (simp_all add: gdef_format1_example_def be_word_def)
  have s: "be_word gdef_format1_example 14 = 10"
    by (simp add: gdef_format1_example_def be_word_def)
  have a: "GDEF_ClassValueArray gdef_format1_example 12 = [BaseGlyph, MarkGlyph]"
    by (simp add: GDEF_ClassValueArray_def gdef_format1_example_def be_word_def
        BaseGlyph_def MarkGlyph_def upt_conv_Cons)
  show ?thesis
    using GDEF_format1_class [OF h, of 10] GDEF_format1_class [OF h, of 11]
      GDEF_format1_class [OF h, of 9] GDEF_format1_class [OF h, of 12]
    by (simp add: o s a classify_format1_def)
qed

text \<open>
  C5. In a GDEF table whose class definition has format 2 and holds its
  \<open>ClassRangeCount\<close> ranges, the class of a glyph is the class of the first range, in
  stored order, with \<open>start \<le> glyph \<le> end\<close>, and 0 when no range matches. With the
  ranges (1, 5, Base), (3, 3, Mark) glyph 3 is a Base glyph.
\<close>

theorem GDEF_format2_first_range:
  assumes "6 \<le> length m" and "be_word m 4 \<noteq> 0"
    and "be_word m (unat (be_word m 4)) = 2"
    and "unat (be_word m 4) + 4 + 6 * unat (be_word m (unat (be_word m 4) + 2)) \<le> length m"
  shows "GDEF_get_glyph_class (Ptr m) glyph =
           Some (classify_format2 (GDEF_ClassRangeRecords m (unat (be_word m 4))) glyph, [])"
  using assms
  by (simp add: GDEF_get_glyph_class_def GET_BE_WORD_Some GDEF_class_ranges_find
      GDEF_ClassRangeRecords_def Let_def)

theorem GDEF_format2_first_range_witness:
  "GDEF_ClassRangeRecords gdef_format2_example 12 = [(1, 5, BaseGlyph), (3, 3, MarkGlyph)] \<and>
   GDEF_get_glyph_class (Ptr gdef_format2_example) 3 = Some (BaseGlyph, []) \<and>
   GDEF_get_glyph_class (Ptr gdef_format2_example) 6 = Some (0, [])"
proof -
  have h: "6 \<le> length gdef_format2_example" "be_word gdef_format2_example 4 \<noteq> 0"
    "be_word gdef_format2_example (unat (be_word gdef_format2_example 4)) = 2"
    "unat (be_word gdef_format2_example 4) + 4 +
       6 * unat (be_word gdef_format2_example (unat (be_word gdef_format2_example 4) + 2))
     \<le> length gdef_format2_example"
    by (simp_all add: gdef_format2_example_def be_word_def)
  have o: "unat (be_word gdef_format2_example 4) = 12"
    by (simp add: gdef_format2_example_def be_word_def)
  have r: "GDEF_ClassRangeRecords gdef_format2_example 12 =
      [(1, 5, BaseGlyph), (3, 3, MarkGlyph)]"
    by (simp add: GDEF_ClassRangeRecords_def gdef_format2_example_def be_word_def
        BaseGlyph_def MarkGlyph_def upt_conv_Cons)
  show ?thesis
    using GDEF_format2_first_range [OF h, of 3] GDEF_format2_first_range [OF h, of 6]
    by (simp add: o r classify_format2_def BaseGlyph_def MarkGlyph_def)
qed

text \<open>
  C6. The classifier answers 0 (no class) and does not fail: without a GDEF table;
  with a header whose class definition offset is zero; and with a class definition
  whose format is neither 1 nor 2, where the format is logged and nothing else happens.
\<close>

theorem GDEF_class_degrades:
  "GDEF_get_glyph_class NULL glyph = Some (0, []) \<and>
   (6 \<le> length m \<and> be_word m 4 = 0 \<longrightarrow> GDEF_get_glyph_class (Ptr m) glyph = Some (0, [])) \<and>
   (6 \<le> length m \<and> be_word m 4 \<noteq> 0 \<and> unat (be_word m 4) + 2 \<le> length m \<and>
    be_word m (unat (be_word m 4)) \<noteq> 1 \<and> be_word m (unat (be_word m 4)) \<noteq> 2 \<longrightarrow>
    GDEF_get_glyph_class (Ptr m) glyph =
      Some (0, [Unknown_Class_Format (be_word m (unat (be_word m 4)))]))"
  by (simp add: GDEF_get_glyph_class_def GET_BE_WORD_Some Let_def)

theorem GDEF_class_degrades_witness:
  "GDEF_get_glyph_class (Ptr gdef_no_classdef_example) 7 = Some (0, []) \<and>
   GDEF_get_glyph_class (Ptr gdef_format3_example) 7 = Some (0, [Unknown_Class_Format 3])"
proof -
  have a: "6 \<le> length gdef_no_classdef_example \<and> be_word gdef_no_classdef_example 4 = 0"
    by (simp add: gdef_no_classdef_example_def be_word_def)
  have o: "unat (be_word gdef_format3_example 4) = 12"
    by (simp add: gdef_format3_example_def be_word_def)
  have f: "be_word gdef_format3_example 12 = 3"
    by (simp add: gdef_format3_example_def be_word_def)
  have b: "6 \<le> length gdef_format3_example \<and> be_word gdef_format3_example 4 \<noteq> 0 \<and>
      unat (be_word gdef_format3_example 4) + 2 \<le> length gdef_format3_example \<and>
      be_word gdef_format3_example (unat (be_word gdef_format3_example 4)) \<noteq> 1 \<and>
      be_word gdef_format3_example (unat (be_word gdef_format3_example 4)) \<noteq> 2"
    unfolding o f by (simp add: gdef_format3_example_def be_word_def)
  show ?thesis
    using GDEF_class_degrades [of 7 gdef_no_classdef_example] a
      GDEF_class_degrades [of 7 gdef_format3_example] b
    by (simp add: o f)
qed

text \<open>
  C7. A cmap table in the cache is what every later request uses, with no call of
  the font data provider: \<open>load_CMAP_format12_table\<close> scans the stored block and
  leaves the world as it is, and a lookup keeps the block and the list of calls. A
  fetch with a successful size query stores the block after exactly two calls, and a
  second request returns the same view from the same world. The same holds for the
  GDEF table through \<open>OpenType_GDEF_UpdateGlyphProps\<close>.
\<close>

theorem table_cache_idempotent:
  "(CMAP_Table (psc w) = Ptr m \<longrightarrow>
      load_CMAP_format12_table e w = map_option (\<lambda>r. (r, w)) (CMAP_encoding_records m 0)) \<and>
   (CMAP_Table (psc w) = Ptr m \<and> OpenType_CMAP_GetGlyphIndex e c pgi flags w = Some (g, w') \<longrightarrow>
      CMAP_Table (psc w') = Ptr m \<and> fd_calls w' = fd_calls w) \<and>
   (CMAP_Table (psc w) = NULL \<and> fd_size e (length (fd_calls w)) CMAP_TAG = Some n \<and>
    load_CMAP_format12_table e w = Some (r, w1) \<longrightarrow>
      CMAP_Table (psc w1) = Ptr (fetched e CMAP_TAG w n) \<and>
      fd_calls w1 = fd_calls w @ [Size_query CMAP_TAG, Fill CMAP_TAG n] \<and>
      load_CMAP_format12_table e' w1 = Some (r, w1)) \<and>
   (GDEF_Table (psc w) = Ptr m \<and>
    OpenType_GDEF_UpdateGlyphProps e pwGlyphs cGlyphs pwLogClust cChars pGlyphProp w =
      Some (props, w') \<longrightarrow>
      GDEF_Table (psc w') = Ptr m \<and> fd_calls w' = fd_calls w) \<and>
   (GDEF_Table (psc w) = NULL \<and> fd_size e (length (fd_calls w)) GDEF_TAG = Some n \<and>
    OpenType_GDEF_UpdateGlyphProps e pwGlyphs cGlyphs pwLogClust cChars pGlyphProp w =
      Some (props, w1) \<and>
    OpenType_GDEF_UpdateGlyphProps e' pwGlyphs' cGlyphs' pwLogClust' cChars' pGlyphProp' w1 =
      Some (props2, w2) \<longrightarrow>
      GDEF_Table (psc w1) = Ptr (fetched e GDEF_TAG w n) \<and>
      fd_calls w1 = fd_calls w @ [Size_query GDEF_TAG, Fill GDEF_TAG n] \<and>
      GDEF_Table (psc w2) = GDEF_Table (psc w1) \<and> fd_calls w2 = fd_calls w1)"
proof (intro conjI impI)
  assume "CMAP_Table (psc w) = Ptr m"
  then show "load_CMAP_format12_table e w =
      map_option (\<lambda>r. (r, w)) (CMAP_encoding_records m 0)"
    by (rule load_CMAP_cached)
next
  assume "CMAP_Table (psc w) = Ptr m \<and>
    OpenType_CMAP_GetGlyphIndex e c pgi flags w = Some (g, w')"
  then show "CMAP_Table (psc w') = Ptr m" "fd_calls w' = fd_calls w"
    using GetGlyphIndex_keeps_table [of w m e c pgi flags g w'] by simp_all
next
  assume a: "CMAP_Table (psc w) = NULL \<and> fd_size e (length (fd_calls w)) CMAP_TAG = Some n \<and>
    load_CMAP_format12_table e w = Some (r, w1)"
  then have f: "w1 = w\<lparr>psc := (psc w)\<lparr>CMAP_Table := Ptr (fetched e CMAP_TAG w n)\<rparr>,
                 fd_calls := fd_calls w @ [Size_query CMAP_TAG, Fill CMAP_TAG n]\<rparr>"
    and s: "CMAP_encoding_records (fetched e CMAP_TAG w n) 0 = Some r"
    using load_CMAP_fetch [of w e n r w1] by simp_all
  from f show t: "CMAP_Table (psc w1) = Ptr (fetched e CMAP_TAG w n)"
    and "fd_calls w1 = fd_calls w @ [Size_query CMAP_TAG, Fill CMAP_TAG n]"
    by simp_all
  from load_CMAP_cached [OF t, of e'] s
  show "load_CMAP_format12_table e' w1 = Some (r, w1)" by simp
next
  assume a: "GDEF_Table (psc w) = Ptr m \<and>
    OpenType_GDEF_UpdateGlyphProps e pwGlyphs cGlyphs pwLogClust cChars pGlyphProp w =
      Some (props, w')"
  with UpdateGlyphProps_world [of e pwGlyphs cGlyphs pwLogClust cChars pGlyphProp w props w']
  show "GDEF_Table (psc w') = Ptr m" "fd_calls w' = fd_calls w"
    by (simp_all add: gdef_table_used_def)
next
  assume a: "GDEF_Table (psc w) = NULL \<and> fd_size e (length (fd_calls w)) GDEF_TAG = Some n \<and>
    OpenType_GDEF_UpdateGlyphProps e pwGlyphs cGlyphs pwLogClust cChars pGlyphProp w =
      Some (props, w1) \<and>
    OpenType_GDEF_UpdateGlyphProps e' pwGlyphs' cGlyphs' pwLogClust' cChars' pGlyphProp' w1 =
      Some (props2, w2)"
  with UpdateGlyphProps_world [of e pwGlyphs cGlyphs pwLogClust cChars pGlyphProp w props w1]
  show t: "GDEF_Table (psc w1) = Ptr (fetched e GDEF_TAG w n)"
    and "fd_calls w1 = fd_calls w @ [Size_query GDEF_TAG, Fill GDEF_TAG n]"
    by (simp_all add: gdef_table_used_def)
  from a t
    UpdateGlyphProps_world [of e' pwGlyphs' cGlyphs' pwLogClust' cChars' pGlyphProp' w1 props2 w2]
  show "GDEF_Table (psc w2) = GDEF_Table (psc w1)" "fd_calls w2 = fd_calls w1"
    by (simp_all add: gdef_table_used_def)
qed

theorem table_cache_idempotent_witness:
  "load_CMAP_format12_table example_env empty_world = Some (Ptr 12, cmap_fetched_world) \<and>
   fd_calls cmap_fetched_world = [Size_query CMAP_TAG, Fill CMAP_TAG 40] \<and>
   load_CMAP_format12_table absent_env cmap_fetched_world = Some (Ptr 12, cmap_fetched_world)"
proof -
  have a: "CMAP_Table (psc empty_world) = NULL \<and>
      fd_size example_env (length (fd_calls empty_world)) CMAP_TAG = Some 40"
    by (simp add: empty_world_def example_env_def)
  have l: "load_CMAP_format12_table example_env empty_world = Some (Ptr 12, cmap_fetched_world)"
    by code_simp
  have c: "fd_calls empty_world = []" by (simp add: empty_world_def)
  note t = table_cache_idempotent [where w = empty_world and e = example_env and n = 40
      and r = "Ptr 12" and ?w1.0 = cmap_fetched_world and e' = absent_env,
      THEN conjunct2, THEN conjunct2, THEN conjunct1, rule_format]
  from t a l have "fd_calls cmap_fetched_world =
      fd_calls empty_world @ [Size_query CMAP_TAG, Fill CMAP_TAG 40]"
    and "load_CMAP_format12_table absent_env cmap_fetched_world =
      Some (Ptr 12, cmap_fetched_world)"
    by blast+
  with l c show ?thesis by simp
qed

text \<open>
  C8 (amended). A failed size query is not cached: with no table in the cache
  and a size query that fails, the loaders report \<open>NULL\<close>, store nothing and make that
  one call; and every request that finds no table in the cache starts with a new size
  query. What the second call of the provider returns is not looked at.
\<close>

theorem failed_query_not_cached:
  "(CMAP_Table (psc w) = NULL \<and> fd_size e (length (fd_calls w)) CMAP_TAG = None \<longrightarrow>
      load_CMAP_format12_table e w =
        Some (NULL, w\<lparr>fd_calls := fd_calls w @ [Size_query CMAP_TAG]\<rparr>)) \<and>
   (CMAP_Table (psc w) = NULL \<and> load_CMAP_format12_table e w = Some (r, w') \<longrightarrow>
      take (Suc (length (fd_calls w))) (fd_calls w') = fd_calls w @ [Size_query CMAP_TAG]) \<and>
   (fd_size e (length (fd_calls w)) GDEF_TAG = None \<longrightarrow>
      load_gdef_table e w = (NULL, w\<lparr>fd_calls := fd_calls w @ [Size_query GDEF_TAG]\<rparr>)) \<and>
   (GDEF_Table (psc w) = NULL \<and> fd_size e (length (fd_calls w)) GDEF_TAG = None \<and>
    OpenType_GDEF_UpdateGlyphProps e pwGlyphs cGlyphs pwLogClust cChars pGlyphProp w =
      Some (props, w') \<longrightarrow>
      GDEF_Table (psc w') = NULL \<and> fd_calls w' = fd_calls w @ [Size_query GDEF_TAG]) \<and>
   (GDEF_Table (psc w) = NULL \<and>
    OpenType_GDEF_UpdateGlyphProps e pwGlyphs cGlyphs pwLogClust cChars pGlyphProp w =
      Some (props, w') \<longrightarrow>
      take (Suc (length (fd_calls w))) (fd_calls w') = fd_calls w @ [Size_query GDEF_TAG])"
proof (intro conjI impI)
  assume "CMAP_Table (psc w) = NULL \<and> fd_size e (length (fd_calls w)) CMAP_TAG = None"
  then show "load_CMAP_format12_table e w =
      Some (NULL, w\<lparr>fd_calls := fd_calls w @ [Size_query CMAP_TAG]\<rparr>)"
    by (simp add: load_CMAP_absent)
next
  assume "CMAP_Table (psc w) = NULL \<and> load_CMAP_format12_table e w = Some (r, w')"
  then show "take (Suc (length (fd_calls w))) (fd_calls w') = fd_calls w @ [Size_query CMAP_TAG]"
    using load_CMAP_calls [of w e r w'] by simp
next
  assume "fd_size e (length (fd_calls w)) GDEF_TAG = None"
  then show "load_gdef_table e w = (NULL, w\<lparr>fd_calls := fd_calls w @ [Size_query GDEF_TAG]\<rparr>)"
    by (simp add: load_gdef_table_def GetFontData_size_def)
next
  assume "GDEF_Table (psc w) = NULL \<and> fd_size e (length (fd_calls w)) GDEF_TAG = None \<and>
    OpenType_GDEF_UpdateGlyphProps e pwGlyphs cGlyphs pwLogClust cChars pGlyphProp w =
      Some (props, w')"
  with UpdateGlyphProps_world [of e pwGlyphs cGlyphs pwLogClust cChars pGlyphProp w props w']
  show "GDEF_Table (psc w') = NULL" "fd_calls w' = fd_calls w @ [Size_query GDEF_TAG]"
    by (simp_all add: gdef_table_used_def)
next
  assume "GDEF_Table (psc w) = NULL \<and>
    OpenType_GDEF_UpdateGlyphProps e pwGlyphs cGlyphs pwLogClust cChars pGlyphProp w =
      Some (props, w')"
  with UpdateGlyphProps_world [of e pwGlyphs cGlyphs pwLogClust cChars pGlyphProp w props w']
  show "take (Suc (length (fd_calls w))) (fd_calls w') = fd_calls w @ [Size_query GDEF_TAG]"
    by (simp split: option.splits)
qed

theorem failed_query_not_cached_witness:
  "load_CMAP_format12_table absent_env empty_world =
     Some (NULL, empty_world\<lparr>fd_calls := [Size_query CMAP_TAG]\<rparr>) \<and>
   load_CMAP_format12_table absent_env (empty_world\<lparr>fd_calls := [Size_query CMAP_TAG]\<rparr>) =
     Some (NULL, empty_world\<lparr>fd_calls := [Size_query CMAP_TAG, Size_query CMAP_TAG]\<rparr>)"
proof -
  let ?w1 = "empty_world\<lparr>fd_calls := [Size_query CMAP_TAG]\<rparr>"
  have a: "CMAP_Table (psc empty_world) = NULL \<and>
      fd_size absent_env (length (fd_calls empty_world)) CMAP_TAG = None"
    "CMAP_Table (psc ?w1) = NULL \<and> fd_size absent_env (length (fd_calls ?w1)) CMAP_TAG = None"
    by (simp_all add: empty_world_def absent_env_def)
  from failed_query_not_cached [of empty_world absent_env] a(1)
    failed_query_not_cached [of ?w1 absent_env] a(2)
  show ?thesis by (simp add: empty_world_def)
qed

theorem short_read_cached_counterexample:
  "fd_data short_read_env 1 CMAP_TAG 4 = None \<and>
   load_CMAP_format12_table short_read_env empty_world = Some (NULL, short_read_world) \<and>
   CMAP_Table (psc short_read_world) = Ptr [0, 0, 0, 0] \<and>
   load_CMAP_format12_table short_read_env short_read_world = Some (NULL, short_read_world)"
proof -
  have a: "fd_data short_read_env 1 CMAP_TAG 4 = None" by (simp add: short_read_env_def)
  have b: "load_CMAP_format12_table short_read_env empty_world = Some (NULL, short_read_world)"
    by code_simp
  have c: "CMAP_Table (psc short_read_world) = Ptr [0, 0, 0, 0]"
    by (simp add: short_read_world_def)
  have d: "load_CMAP_format12_table short_read_env short_read_world =
      Some (NULL, short_read_world)"
    by code_simp
  from a b c d show ?thesis by simp
qed

text \<open>
  C9 (amended). The code checks no offset and no count against the size of the
  table. When the table holds what its offsets and counts announce, the classifier,
  the scan of the encoding records and the lookup of a codepoint from 0x10000 on read
  inside the table and give a result. A table that announces more than it holds is
  not taken as absent.
\<close>

theorem reads_inside_table:
  "(GDEF_in_bounds m \<longrightarrow> (\<exists>cls msgs. GDEF_get_glyph_class (Ptr m) glyph = Some (cls, msgs))) \<and>
   (CMAP_in_bounds m \<longrightarrow> (\<exists>r. CMAP_encoding_records m 0 = Some r)) \<and>
   (0x10000 \<le> c \<and> cmap_ready e w \<longrightarrow>
      (\<exists>r. OpenType_CMAP_GetGlyphIndex e c pgi flags w = Some r))"
proof (intro conjI impI)
  assume "GDEF_in_bounds m"
  then show "\<exists>cls msgs. GDEF_get_glyph_class (Ptr m) glyph = Some (cls, msgs)"
    by (rule GDEF_get_glyph_class_total)
next
  assume "CMAP_in_bounds m"
  from CMAP_encoding_records_total [OF this, of 0]
  show "\<exists>r. CMAP_encoding_records m 0 = Some r" by blast
next
  assume "0x10000 \<le> c \<and> cmap_ready e w"
  then have "0x10000 \<le> c" "cmap_ready e w" by simp_all
  from GetGlyphIndex_total [OF this, of pgi flags]
  show "\<exists>r. OpenType_CMAP_GetGlyphIndex e c pgi flags w = Some r" by blast
qed

theorem reads_inside_table_witness:
  "GDEF_get_glyph_class (Ptr gdef_format2_example) 3 \<noteq> None \<and>
   CMAP_encoding_records cmap_example 0 \<noteq> None \<and>
   OpenType_CMAP_GetGlyphIndex example_env 0x10001 0 0 cmap_loaded_world \<noteq> None"
proof -
  have a: "GDEF_in_bounds gdef_format2_example"
    by (simp add: GDEF_in_bounds_def gdef_format2_example_def be_word_def)
  have b: "CMAP_in_bounds cmap_example"
    by (simp add: CMAP_in_bounds_def cmap_example_def be_word_def be_dword_def
        format12_in_bounds_def)
  have c: "(0x10000 :: DWORD) \<le> 0x10001 \<and> cmap_ready example_env cmap_loaded_world"
    by (simp add: cmap_ready_def cmap_loaded_world_def format12_in_bounds_def
        cmap_example_def be_dword_def)
  from reads_inside_table [where m = gdef_format2_example and glyph = 3] a
    reads_inside_table [where m = cmap_example and c = "0x10001" and e = example_env
      and w = cmap_loaded_world and pgi = 0 and flags = 0] b c
  show ?thesis by auto
qed

theorem truncated_table_counterexample:
  "\<not> GDEF_in_bounds gdef_truncated_example \<and>
   GDEF_get_glyph_class (Ptr gdef_truncated_example) 10 = None"
proof -
  have "\<not> GDEF_in_bounds gdef_truncated_example"
    by (simp add: GDEF_in_bounds_def gdef_truncated_example_def be_word_def)
  moreover have "GDEF_get_glyph_class (Ptr gdef_truncated_example) 10 = None"
    by (simp add: GDEF_get_glyph_class_def gdef_truncated_example_def GET_BE_WORD_def
        be_word_def)
  ultimately show ?thesis by simp
qed

text \<open>
  C10. For a codepoint \<open>c \<ge> 0x10000\<close>, when the cmap data that the lookup reads lies
  inside its table, the call returns 0 in every case, and the glyph index it stores
  does not depend on the old content of the out-parameter: it is the sentinel, or it
  comes from a group of the cached subtable that holds \<open>c\<close>.
\<close>

theorem GetGlyphIndex_returns_zero:
  assumes "0x10000 \<le> c" and "cmap_ready e w"
  shows "\<exists>pgi' w'. (\<forall>pgi. OpenType_CMAP_GetGlyphIndex e c pgi flags w = Some ((0, pgi'), w')) \<and>
      (pgi' = not_found_glyph flags \<or>
       (\<exists>m f. CMAP_Table (psc w') = Ptr m \<and> CMAP_format12_Table (psc w') = Ptr f \<and>
          (\<exists>(s, e, g) \<in> set (CMAP_groups m f).
             s \<le> c \<and> c \<le> e \<and> pgi' = ucast (g + (c - s)))))"
proof -
  from GetGlyphIndex_total [OF assms, of 0 flags] obtain pgi' w' where
    r: "OpenType_CMAP_GetGlyphIndex e c 0 flags w = Some ((0, pgi'), w')"
    and p: "pgi' = not_found_glyph flags \<or>
       (\<exists>m f. CMAP_Table (psc w') = Ptr m \<and> CMAP_format12_Table (psc w') = Ptr f \<and>
          (\<exists>(s, e, g) \<in> set (CMAP_groups m f).
             s \<le> c \<and> c \<le> e \<and> pgi' = ucast (g + (c - s))))"
    by blast
  from assms(1) have "\<not> c < 0x10000" by (simp add: not_less)
  then have "OpenType_CMAP_GetGlyphIndex e c pgi flags w =
      OpenType_CMAP_GetGlyphIndex e c 0 flags w" for pgi
    by (simp add: OpenType_CMAP_GetGlyphIndex_def)
  with r have "\<forall>pgi. OpenType_CMAP_GetGlyphIndex e c pgi flags w = Some ((0, pgi'), w')"
    by simp
  with p show ?thesis by (intro exI [of _ pgi'] exI [of _ w']) simp
qed

theorem GetGlyphIndex_returns_zero_witness:
  "map_option (\<lambda>r. fst (fst r))
     (OpenType_CMAP_GetGlyphIndex example_env 0x10001 9 0 empty_world) = Some 0"
proof -
  have c: "(0x10000 :: DWORD) \<le> 0x10001" by simp
  have f: "fetched example_env CMAP_TAG empty_world 40 = cmap_example"
    by code_simp
  have b: "CMAP_in_bounds cmap_example"
    by (simp add: CMAP_in_bounds_def cmap_example_def be_word_def be_dword_def
        format12_in_bounds_def)
  have r: "cmap_ready example_env empty_world"
    by (simp add: cmap_ready_def empty_world_def example_env_def f [unfolded example_env_def empty_world_def] b)
  from GetGlyphIndex_returns_zero [OF c r, of 0] show ?thesis by auto
qed

end
